theory Spec2Isabelle
  imports Main "HOL-Library.Sublist"
begin

section \<open>Python strings\<close>

text \<open>
  A Python \<open>str\<close> is a sequence of Unicode code points, and \<open>len\<close>, slicing and
  \<open>strip\<close> count code points. A string is therefore modelled as a list of code points
  (natural numbers); \<open>ascii\<close> turns an ASCII literal into such a list. Dictionary keys,
  which the source only ever writes as ASCII literals, are plain HOL strings.
\<close>

type_synonym ustring = "nat list"

definition ascii :: "string \<Rightarrow> ustring" where
  "ascii s = map of_char s"

text \<open>\<open>str.isspace\<close> for one code point: the characters \<open>str.strip()\<close> and
  \<open>str.split()\<close> treat as whitespace.\<close>

definition is_space :: "nat \<Rightarrow> bool" where
  "is_space c \<longleftrightarrow>
     (9 \<le> c \<and> c \<le> 13) \<or> (28 \<le> c \<and> c \<le> 32) \<or> c = 133 \<or> c = 160 \<or> c = 5760 \<or>
     (8192 \<le> c \<and> c \<le> 8202) \<or> c = 8232 \<or> c = 8233 \<or> c = 8239 \<or> c = 8287 \<or> c = 12288"

definition lstrip :: "ustring \<Rightarrow> ustring" where
  "lstrip s = dropWhile is_space s"

definition rstrip :: "ustring \<Rightarrow> ustring" where
  "rstrip s = rev (dropWhile is_space (rev s))"

definition strip :: "ustring \<Rightarrow> ustring" where
  "strip s = rstrip (lstrip s)"

text \<open>\<open>s.split(sep)\<close> for a non-empty separator: a left-to-right scan for
  non-overlapping occurrences; \<open>acc\<close> is the piece read so far.\<close>

function py_split_from :: "ustring \<Rightarrow> ustring \<Rightarrow> ustring \<Rightarrow> ustring list" where
  "py_split_from sep acc [] = [acc]"
| "py_split_from sep acc (c # cs) =
     (if sep \<noteq> [] \<and> take (length sep) (c # cs) = sep
      then acc # py_split_from sep [] (drop (length sep) (c # cs))
      else py_split_from sep (acc @ [c]) cs)"
  by pat_completeness auto
termination
  by (relation "measure (\<lambda>(sep, acc, s). length s)") auto

definition py_split :: "ustring \<Rightarrow> ustring \<Rightarrow> ustring list" where
  "py_split sep s = py_split_from sep [] s"

text \<open>\<open>str(n)\<close> for a non-negative integer: its decimal digits.\<close>

fun str_nat :: "nat \<Rightarrow> ustring" where
  "str_nat n = (if n < 10 then [48 + n] else str_nat (n div 10) @ [48 + n mod 10])"

declare str_nat.simps [simp del]

definition nl :: ustring where
  "nl = [10]"

definition nl2 :: ustring where
  "nl2 = [10, 10]"

section \<open>The text chunker (\<open>PDFProcessor.chunk_text\<close>)\<close>

text \<open>
  Dictionaries are mutable objects, and \<open>chunk_text\<close> attaches \<open>metadata.copy()\<close> to every
  chunk. The store is a list of dictionaries, an address is an index into it, and
  \<open>copy\<close> allocates a new cell at the end of the store. A chunk holds the address of its
  metadata dictionary.
\<close>

text \<open>Exceptions, each with the text \<open>str(e)\<close> is built from.\<close>

datatype error = KeyError ustring | ValueError ustring | FileNotFoundError ustring | OtherError ustring

definition error_str :: "error \<Rightarrow> ustring" where
  "error_str e =
     (case e of
        KeyError k \<Rightarrow> [39] @ k @ [39]
      | ValueError msg \<Rightarrow> msg
      | FileNotFoundError msg \<Rightarrow> msg
      | OtherError msg \<Rightarrow> msg)"

type_synonym dict = "string \<rightharpoonup> ustring"

type_synonym store = "dict list"

record chunk =
  c_id :: ustring
  c_text :: ustring
  c_metadata :: nat
  c_index :: nat

record chunker =
  chunks :: "chunk list"
  current_chunk :: ustring
  chunk_id :: nat
  heap :: store

text \<open>The \<open>chunks.append({...})\<close> statement, used at both places of the source. The
  dictionary display evaluates \<open>metadata['filename']\<close> first, which raises \<open>KeyError\<close>
  when the key is absent.\<close>

definition append_chunk :: "nat \<Rightarrow> chunker \<Rightarrow> error + chunker" where
  "append_chunk m st =
     (case (heap st ! m) ''filename'' of
        None \<Rightarrow> Inl (KeyError (ascii ''filename''))
      | Some filename \<Rightarrow>
          Inr (st\<lparr>chunks := chunks st @
                 [\<lparr>c_id = filename @ ascii ''_chunk_'' @ str_nat (chunk_id st),
                   c_text = strip (current_chunk st),
                   c_metadata = length (heap st),
                   c_index = chunk_id st\<rparr>],
               heap := heap st @ [heap st ! m]\<rparr>))"

text \<open>\<open>current_chunk[-chunk_overlap:] if len(current_chunk) > chunk_overlap else
  current_chunk\<close>. A slice \<open>s[-0:]\<close> is \<open>s[0:]\<close>, the whole string, and a negative
  overlap \<open>-k\<close> gives \<open>s[k:]\<close>.\<close>

definition overlap_text :: "int \<Rightarrow> ustring \<Rightarrow> ustring" where
  "overlap_text ov cur =
     (if int (length cur) > ov
      then (if ov > 0 then drop (length cur - nat ov) cur
            else if ov = 0 then cur
            else drop (nat (- ov)) cur)
      else cur)"

fun chunk_loop :: "int \<Rightarrow> int \<Rightarrow> nat \<Rightarrow> ustring list \<Rightarrow> chunker \<Rightarrow> error + chunker" where
  "chunk_loop sz ov m [] st = Inr st"
| "chunk_loop sz ov m (paragraph # rest) st =
     (if int (length (current_chunk st)) + int (length paragraph) > sz \<and> current_chunk st \<noteq> []
      then (case append_chunk m st of
              Inl e \<Rightarrow> Inl e
            | Inr st' \<Rightarrow>
                chunk_loop sz ov m rest
                  (st'\<lparr>chunk_id := chunk_id st' + 1,
                       current_chunk := overlap_text ov (current_chunk st') @ nl2 @ paragraph\<rparr>))
      else chunk_loop sz ov m rest
             (st\<lparr>current_chunk :=
                   (if current_chunk st \<noteq> [] then current_chunk st @ nl2 @ paragraph
                    else paragraph)\<rparr>))"

definition paragraphs :: "ustring \<Rightarrow> ustring list" where
  "paragraphs text = map strip (filter (\<lambda>p. strip p \<noteq> []) (py_split nl2 text))"

text \<open>\<open>chunk_text(text, metadata)\<close> with \<open>self.chunk_size = sz\<close> and
  \<open>self.chunk_overlap = ov\<close>; \<open>m\<close> is the address of \<open>metadata\<close> in the store \<open>h\<close>.
  The result is the returned list together with the store after the call.\<close>

definition chunk_text :: "int \<Rightarrow> int \<Rightarrow> ustring \<Rightarrow> nat \<Rightarrow> store \<Rightarrow> error + (chunk list \<times> store)" where
  "chunk_text sz ov text m h =
     (if strip text = [] then Inr ([], h)
      else
        (case chunk_loop sz ov m (paragraphs text)
                \<lparr>chunks = [], current_chunk = [], chunk_id = 0, heap = h\<rparr> of
           Inl e \<Rightarrow> Inl e
         | Inr st \<Rightarrow>
             if strip (current_chunk st) \<noteq> []
             then (case append_chunk m st of
                     Inl e \<Rightarrow> Inl e
                   | Inr st' \<Rightarrow> Inr (chunks st', heap st'))
             else Inr (chunks st, heap st)))"

text \<open>
  The successive values of \<open>current_chunk\<close> at the moments \<open>chunk_text\<close> appends a chunk:
  the same loop as \<open>chunk_loop\<close>, keeping only the buffer. It names the "closed buffer"
  of a chunk, of which the chunk's text is the stripped form.
\<close>

fun buffer_trace :: "int \<Rightarrow> int \<Rightarrow> ustring list \<Rightarrow> ustring \<Rightarrow> ustring list" where
  "buffer_trace sz ov [] cur = (if strip cur \<noteq> [] then [cur] else [])"
| "buffer_trace sz ov (paragraph # rest) cur =
     (if int (length cur) + int (length paragraph) > sz \<and> cur \<noteq> []
      then cur # buffer_trace sz ov rest (overlap_text ov cur @ nl2 @ paragraph)
      else buffer_trace sz ov rest (if cur \<noteq> [] then cur @ nl2 @ paragraph else paragraph))"

section \<open>The metadata extractor (\<open>PDFProcessor.extract_metadata_from_filename\<close>)\<close>

text \<open>
  The Unicode tables behind Python's built-ins are parameters of the model: the classes
  \<open>\w\<close> and \<open>\d\<close> of \<open>re\<close>, and \<open>str.capitalize\<close> and \<open>str.lower\<close>.
  \<open>ascii_tables\<close> is their restriction to ASCII, used to evaluate examples.
\<close>

record unicode =
  re_word :: "nat \<Rightarrow> bool"
  re_digit :: "nat \<Rightarrow> bool"
  str_capitalize :: "ustring \<Rightarrow> ustring"
  str_lower :: "ustring \<Rightarrow> ustring"

definition ascii_lower_char :: "nat \<Rightarrow> nat" where
  "ascii_lower_char c = (if 65 \<le> c \<and> c \<le> 90 then c + 32 else c)"

definition ascii_upper_char :: "nat \<Rightarrow> nat" where
  "ascii_upper_char c = (if 97 \<le> c \<and> c \<le> 122 then c - 32 else c)"

definition ascii_tables :: unicode where
  "ascii_tables =
     \<lparr>re_word = (\<lambda>c. (48 \<le> c \<and> c \<le> 57) \<or> (65 \<le> c \<and> c \<le> 90) \<or> (97 \<le> c \<and> c \<le> 122) \<or> c = 95),
      re_digit = (\<lambda>c. 48 \<le> c \<and> c \<le> 57),
      str_capitalize = (\<lambda>s. case s of [] \<Rightarrow> [] | c # cs \<Rightarrow> ascii_upper_char c # map ascii_lower_char cs),
      str_lower = map ascii_lower_char\<rparr>"

text \<open>\<open>s.replace(old, new)\<close> for a non-empty \<open>old\<close>.\<close>

function py_replace :: "ustring \<Rightarrow> ustring \<Rightarrow> ustring \<Rightarrow> ustring" where
  "py_replace old new [] = []"
| "py_replace old new (c # cs) =
     (if old \<noteq> [] \<and> take (length old) (c # cs) = old
      then new @ py_replace old new (drop (length old) (c # cs))
      else c # py_replace old new cs)"
  by pat_completeness auto
termination
  by (relation "measure (\<lambda>(old, new, s). length s)") auto

text \<open>\<open>s.split()\<close>: the maximal runs of non-whitespace characters.\<close>

fun words_from :: "ustring \<Rightarrow> ustring \<Rightarrow> ustring list" where
  "words_from acc [] = (if acc = [] then [] else [acc])"
| "words_from acc (c # cs) =
     (if is_space c then (if acc = [] then words_from [] cs else acc # words_from [] cs)
      else words_from (acc @ [c]) cs)"

definition py_words :: "ustring \<Rightarrow> ustring list" where
  "py_words s = words_from [] s"

fun py_join :: "ustring \<Rightarrow> ustring list \<Rightarrow> ustring" where
  "py_join sep [] = []"
| "py_join sep [x] = x"
| "py_join sep (x # y # ys) = x @ sep @ py_join sep (y # ys)"

text \<open>\<open>re.search(r'\b(19|20)\d{2}\b', name)\<close>: the leftmost position where the
  pattern matches; \<open>\b\<close> holds where exactly one of the two neighbours is a word
  character.\<close>

definition word_boundary :: "unicode \<Rightarrow> ustring \<Rightarrow> nat \<Rightarrow> bool" where
  "word_boundary U s i \<longleftrightarrow>
     (0 < i \<and> i \<le> length s \<and> re_word U (s ! (i - 1))) \<noteq> (i < length s \<and> re_word U (s ! i))"

definition year_at :: "unicode \<Rightarrow> ustring \<Rightarrow> nat \<Rightarrow> bool" where
  "year_at U s i \<longleftrightarrow>
     i + 4 \<le> length s \<and> word_boundary U s i \<and>
     (take 2 (drop i s) = ascii ''19'' \<or> take 2 (drop i s) = ascii ''20'') \<and>
     re_digit U (s ! (i + 2)) \<and> re_digit U (s ! (i + 3)) \<and> word_boundary U s (i + 4)"

definition search_year :: "unicode \<Rightarrow> ustring \<Rightarrow> ustring option" where
  "search_year U s =
     (case filter (year_at U s) [0..<length s] of
        [] \<Rightarrow> None
      | i # _ \<Rightarrow> Some (take 4 (drop i s)))"

definition extract_metadata_from_filename :: "unicode \<Rightarrow> ustring \<Rightarrow> dict" where
  "extract_metadata_from_filename U filename =
     (let name = py_replace (ascii ''.pdf'') [] filename;
          metadata = [''filename'' \<mapsto> filename, ''title'' \<mapsto> name,
                      ''author'' \<mapsto> ascii ''Unknown'', ''year'' \<mapsto> ascii ''Unknown'',
                      ''source_type'' \<mapsto> ascii ''document''];
          metadata =
            (if 95 \<in> set name then
               (let parts = py_split [95] name in
                if length parts \<ge> 2 then
                  (let potential_author = parts ! 0 in
                   if length (py_words potential_author) \<le> 3
                   then metadata(''author'' \<mapsto> py_replace [95] [32] potential_author,
                                 ''title'' \<mapsto> py_replace [95] [32] (py_join [95] (tl parts)))
                   else metadata)
                else metadata)
             else metadata);
          metadata =
            (if 44 \<in> set name \<and> 95 \<notin> set name then
               (let parts = py_split [44] name in
                if length parts \<ge> 2
                then metadata(''author'' \<mapsto> strip (parts ! 0), ''title'' \<mapsto> strip (parts ! 1))
                else metadata)
             else metadata)
      in (case search_year U name of
            Some year \<Rightarrow> metadata(''year'' \<mapsto> year)
          | None \<Rightarrow> metadata))"

section \<open>The citation formatter (\<open>CitationGenerator\<close>)\<close>

definition clean_author_name :: "ustring \<Rightarrow> ustring" where
  "clean_author_name author =
     (if author = [] \<or> author = ascii ''Unknown'' then ascii ''Unknown Author''
      else
        (let author = py_join [32] (py_words author) in
         if 44 \<in> set author then
           (let authors = map strip (py_split [44] author) in
            if length authors > 1
            then authors ! 0 @ ascii '', '' @ py_join (ascii '', '') (tl authors)
            else author)
         else author))"

definition lowercase_words :: "ustring list" where
  "lowercase_words = map ascii
     [''a'', ''an'', ''and'', ''as'', ''at'', ''but'', ''by'', ''for'', ''if'', ''in'', ''nor'',
      ''of'', ''on'', ''or'', ''so'', ''the'', ''to'', ''up'', ''yet'']"

text \<open>The loop of \<open>title_case\<close>: \<open>i\<close> is the index of the next word, \<open>n\<close> is
  \<open>len(words)\<close>.\<close>

fun title_case_loop :: "unicode \<Rightarrow> nat \<Rightarrow> nat \<Rightarrow> ustring list \<Rightarrow> ustring list" where
  "title_case_loop U n i [] = []"
| "title_case_loop U n i (word # rest) =
     (if i = 0 \<or> int i = int n - 1 then str_capitalize U word
      else if str_lower U word \<in> set lowercase_words then str_lower U word
      else str_capitalize U word) # title_case_loop U n (i + 1) rest"

definition title_case :: "unicode \<Rightarrow> ustring \<Rightarrow> ustring" where
  "title_case U text =
     (let words = py_words text in py_join [32] (title_case_loop U (length words) 0 words))"

definition clean_title :: "unicode \<Rightarrow> ustring \<Rightarrow> ustring" where
  "clean_title U title =
     (if title = [] then ascii ''Untitled Document''
      else
        (let title = py_replace (ascii ''.pdf'') [] title;
             title = py_replace [95] [32] title;
             title = py_join [32] (py_words title)
         in title_case U title))"

text \<open>\<open>metadata.get(key, default)\<close>.\<close>

definition dict_get :: "dict \<Rightarrow> string \<Rightarrow> ustring \<Rightarrow> ustring" where
  "dict_get d k dflt = (case d k of None \<Rightarrow> dflt | Some v \<Rightarrow> v)"

definition generate_reference_citation :: "unicode \<Rightarrow> dict \<Rightarrow> ustring" where
  "generate_reference_citation U metadata =
     (let author = clean_author_name (dict_get metadata ''author'' (ascii ''Unknown''));
          title = clean_title U (dict_get metadata ''title'' (ascii ''Untitled''));
          year = dict_get metadata ''year'' (ascii ''n.d.'');
          filename = dict_get metadata ''filename'' [];
          citation = author @ ascii '' ('' @ year @ ascii ''). '' @ title @ ascii ''.''
      in if metadata ''file_path'' \<noteq> None
         then citation @ ascii '' Retrieved from '' @ filename
         else citation)"

text \<open>The first loop of \<open>format_citations_for_response\<close>. \<open>unique_citations\<close> is a
  dictionary used in insertion order, hence an association list that grows at the
  end.\<close>

fun collect_unique :: "unicode \<Rightarrow> dict list \<Rightarrow> (ustring \<times> ustring) list \<Rightarrow> (ustring \<times> ustring) list" where
  "collect_unique U [] unique_citations = unique_citations"
| "collect_unique U (source # rest) unique_citations =
     (let filename = dict_get source ''filename'' (ascii ''Unknown'') in
      if map_of unique_citations filename = None
      then collect_unique U rest
             (unique_citations @ [(filename, generate_reference_citation U source)])
      else collect_unique U rest unique_citations)"

text \<open>The second loop, over \<open>enumerate(unique_citations.values(), 1)\<close>.\<close>

fun number_citations :: "nat \<Rightarrow> ustring list \<Rightarrow> ustring \<Rightarrow> ustring" where
  "number_citations i [] citations_text = citations_text"
| "number_citations i (citation # rest) citations_text =
     number_citations (i + 1) rest
       (citations_text @ str_nat i @ ascii ''. '' @ citation @ nl)"

definition citations_header :: ustring where
  "citations_header = nl2 @ ascii ''**Pou'' @ [382] @ ascii ''it'' @ [233] @ ascii '' zdroje:**'' @ nl"

definition format_citations_for_response :: "unicode \<Rightarrow> dict list \<Rightarrow> ustring" where
  "format_citations_for_response U used_sources =
     (if used_sources = [] then []
      else number_citations 1 (map snd (collect_unique U used_sources [])) citations_header)"

section \<open>The batch indexer (\<open>BatchIndexer\<close>)\<close>

text \<open>
  What the indexer reads from outside is an environment: the configuration, the source
  directory (\<open>None\<close> when it does not exist, otherwise the paths \<open>glob("*.pdf")\<close>
  lists), the pages PyMuPDF reads from a file (or the exception it raises), the outcome
  of building the \<open>Document\<close> objects and handing them to the vector store (an exception
  of the import or the constructor; \<open>add_documents_to_vectorstore\<close> itself catches
  every exception and returns a boolean that is not read), and the outcome of
  \<open>time.sleep(self.delay_between_batches)\<close>, which raises for a negative delay.
  A document's metadata values are strings; the integer \<open>chunk_index\<close> is kept as its
  decimal digits.
\<close>

record document =
  page_content :: ustring
  doc_metadata :: "(string \<times> ustring) list option"

record environment =
  tables :: unicode
  chunk_size :: int
  chunk_overlap :: int
  sources_dir :: ustring
  pdf_dir :: "ustring list option"
  pdf_pages :: "ustring \<Rightarrow> error + ustring list"
  add_documents :: "document list \<Rightarrow> error option"
  sleep :: "error option"

record indexer =
  batch_size :: int
  processed_files :: "ustring list"
  failed_files :: "ustring list"

record batch_results =
  processed :: nat
  failed :: nat
  total_chunks :: nat
  errors :: "ustring list"

record total_results =
  total_processed :: nat
  total_failed :: nat
  grand_total_chunks :: nat
  all_errors :: "ustring list"

datatype pyval = PStr ustring | PInt int | PBool bool | PList "pyval list"
  | PDict "(string \<times> pyval) list"

fun page_loop :: "nat \<Rightarrow> ustring list \<Rightarrow> ustring \<Rightarrow> ustring" where
  "page_loop page_num [] text = text"
| "page_loop page_num (page_text # rest) text =
     page_loop (page_num + 1) rest
       (if strip page_text \<noteq> []
        then text @ nl @ ascii ''--- Str'' @ [225] @ ascii ''nka '' @ str_nat (page_num + 1)
               @ ascii '' ---'' @ nl @ page_text
        else text)"

definition extract_text_from_pdf :: "environment \<Rightarrow> ustring \<Rightarrow> ustring" where
  "extract_text_from_pdf env pdf_path =
     (case pdf_pages env pdf_path of
        Inl e \<Rightarrow> []
      | Inr pages \<Rightarrow> strip (page_loop 0 pages []))"

text \<open>\<open>os.path.basename\<close>: what follows the last slash.\<close>

definition basename :: "ustring \<Rightarrow> ustring" where
  "basename path = rev (takeWhile (\<lambda>c. c \<noteq> 47) (rev path))"

definition extract_text_and_metadata :: "environment \<Rightarrow> ustring \<Rightarrow> ustring \<times> dict" where
  "extract_text_and_metadata env pdf_path =
     (let text = extract_text_from_pdf env pdf_path;
          filename = basename pdf_path;
          metadata = extract_metadata_from_filename (tables env) filename
      in (text, metadata(''file_path'' \<mapsto> pdf_path)))"

text \<open>\<open>d[k]\<close>, which raises \<open>KeyError\<close> for an absent key.\<close>

definition dict_item :: "dict \<Rightarrow> string \<Rightarrow> error + ustring" where
  "dict_item d k = (case d k of None \<Rightarrow> Inl (KeyError (ascii k)) | Some v \<Rightarrow> Inr v)"

definition make_document :: "store \<Rightarrow> chunk \<Rightarrow> error + document" where
  "make_document h c =
     (let md = h ! c_metadata c in
      case dict_item md ''filename'' of Inl e \<Rightarrow> Inl e | Inr filename \<Rightarrow>
     (case dict_item md ''author'' of Inl e \<Rightarrow> Inl e | Inr author \<Rightarrow>
     (case dict_item md ''title'' of Inl e \<Rightarrow> Inl e | Inr title \<Rightarrow>
     (case dict_item md ''year'' of Inl e \<Rightarrow> Inl e | Inr year \<Rightarrow>
        Inr \<lparr>page_content = c_text c,
             doc_metadata = Some [(''id'', c_id c), (''filename'', filename),
               (''author'', author), (''title'', title), (''year'', year),
               (''chunk_index'', str_nat (c_index c))]\<rparr>))))"

fun make_documents :: "store \<Rightarrow> chunk list \<Rightarrow> error + document list" where
  "make_documents h [] = Inr []"
| "make_documents h (c # cs) =
     (case make_document h c of
        Inl e \<Rightarrow> Inl e
      | Inr d \<Rightarrow> (case make_documents h cs of Inl e \<Rightarrow> Inl e | Inr ds \<Rightarrow> Inr (d # ds)))"

text \<open>The body of the \<open>try\<close> of \<open>process_batch\<close> for one file: \<open>Inl\<close> is an exception
  that reaches the handler (nothing has been counted for the file at that point),
  \<open>Inr\<close> the counters and the indexer after the body or its \<open>continue\<close>. The metadata
  dictionary is a fresh object, the only cell of the store \<open>chunk_text\<close> works on.\<close>

definition process_document ::
  "environment \<Rightarrow> ustring \<Rightarrow> batch_results \<times> indexer \<Rightarrow> error + (batch_results \<times> indexer)" where
  "process_document env pdf_file s =
     (let br = fst s; ix = snd s;
          tm = extract_text_and_metadata env pdf_file
      in if strip (fst tm) = []
         then Inr (br\<lparr>failed := failed br + 1\<rparr>,
                   ix\<lparr>failed_files := failed_files ix @ [pdf_file]\<rparr>)
         else
           (case chunk_text (chunk_size env) (chunk_overlap env) (fst tm) 0 [snd tm] of
              Inl e \<Rightarrow> Inl e
            | Inr r \<Rightarrow>
                if fst r \<noteq> []
                then (case make_documents (snd r) (fst r) of
                        Inl e \<Rightarrow> Inl e
                      | Inr documents \<Rightarrow>
                          (case add_documents env documents of
                             Some e \<Rightarrow> Inl e
                           | None \<Rightarrow>
                               Inr (br\<lparr>total_chunks := total_chunks br + length (fst r),
                                        processed := processed br + 1\<rparr>,
                                    ix\<lparr>processed_files := processed_files ix @ [pdf_file]\<rparr>)))
                else Inr (br, ix)))"

definition document_error_msg :: "ustring \<Rightarrow> error \<Rightarrow> ustring" where
  "document_error_msg pdf_file e =
     ascii ''Chyba p'' @ [345] @ ascii ''i zpracov'' @ [225] @ ascii ''n'' @ [237] @ ascii '' ''
       @ basename pdf_file @ ascii '': '' @ error_str e"

fun process_batch_loop ::
  "environment \<Rightarrow> ustring list \<Rightarrow> batch_results \<times> indexer \<Rightarrow> batch_results \<times> indexer" where
  "process_batch_loop env [] s = s"
| "process_batch_loop env (pdf_file # rest) s =
     process_batch_loop env rest
       (case process_document env pdf_file s of
          Inr s' \<Rightarrow> s'
        | Inl e \<Rightarrow>
            ((fst s)\<lparr>errors := errors (fst s) @ [document_error_msg pdf_file e],
                     failed := failed (fst s) + 1\<rparr>,
             (snd s)\<lparr>failed_files := failed_files (snd s) @ [pdf_file]\<rparr>))"

definition process_batch ::
  "environment \<Rightarrow> ustring list \<Rightarrow> indexer \<Rightarrow> batch_results \<times> indexer" where
  "process_batch env pdf_files ix =
     process_batch_loop env pdf_files
       (\<lparr>processed = 0, failed = 0, total_chunks = 0, errors = []\<rparr>, ix)"

definition get_pdf_files :: "environment \<Rightarrow> error + ustring list" where
  "get_pdf_files env =
     (case pdf_dir env of
        None \<Rightarrow> Inl (FileNotFoundError
                 (ascii ''Slo'' @ [382] @ ascii ''ka '' @ sources_dir env @ ascii '' neexistuje''))
      | Some pdf_files \<Rightarrow> Inr pdf_files)"

text \<open>\<open>range(0, n, step)\<close>: a zero step raises \<open>ValueError\<close>, a negative one gives the
  empty range.\<close>

definition py_range :: "nat \<Rightarrow> int \<Rightarrow> error + nat list" where
  "py_range n step =
     (if step = 0 then Inl (ValueError (ascii ''range() arg 3 must not be zero''))
      else if step < 0 then Inr []
      else Inr (map (\<lambda>k. k * nat step) [0..<(n + nat step - 1) div nat step]))"

text \<open>\<open>[pdf_files[i:i + batch_size] for i in range(0, len(pdf_files), batch_size)]\<close>.\<close>

definition make_batches :: "ustring list \<Rightarrow> int \<Rightarrow> error + ustring list list" where
  "make_batches pdf_files bs =
     (case py_range (length pdf_files) bs of
        Inl e \<Rightarrow> Inl e
      | Inr starts \<Rightarrow> Inr (map (\<lambda>i. take (nat bs) (drop i pdf_files)) starts))"

definition batch_error_msg :: "nat \<Rightarrow> error \<Rightarrow> ustring" where
  "batch_error_msg i e =
     ascii ''Chyba p'' @ [345] @ ascii ''i zpracov'' @ [225] @ ascii ''n'' @ [237] @ ascii '' d''
       @ [225] @ ascii ''vky '' @ str_nat i @ ascii '': '' @ error_str e"

text \<open>The loop over \<open>enumerate(batches, 1)\<close>; \<open>n\<close> is \<open>len(batches)\<close>. The totals are
  updated before the pause, so an exception of the pause only adds a message.\<close>

fun batches_loop ::
  "environment \<Rightarrow> nat \<Rightarrow> nat \<Rightarrow> ustring list list \<Rightarrow> total_results \<times> indexer \<Rightarrow>
   total_results \<times> indexer" where
  "batches_loop env n i [] s = s"
| "batches_loop env n i (batch # rest) s =
     (let r = process_batch env batch (snd s);
          br = fst r;
          total = (fst s)\<lparr>total_processed := total_processed (fst s) + processed br,
                          total_failed := total_failed (fst s) + failed br,
                          grand_total_chunks := grand_total_chunks (fst s) + total_chunks br,
                          all_errors := all_errors (fst s) @ errors br\<rparr>
      in batches_loop env n (i + 1) rest
           (if i < n
            then (case sleep env of
                    Some e \<Rightarrow> total\<lparr>all_errors := all_errors total @ [batch_error_msg i e]\<rparr>
                  | None \<Rightarrow> total)
            else total,
            snd r))"

definition failure_report :: "ustring \<Rightarrow> (string \<times> pyval) list" where
  "failure_report msg =
     [(''success'', PBool False), (''error'', PStr msg), (''total_processed'', PInt 0),
      (''total_failed'', PInt 0), (''total_chunks'', PInt 0)]"

definition index_all_documents ::
  "environment \<Rightarrow> indexer \<Rightarrow> error + ((string \<times> pyval) list \<times> indexer)" where
  "index_all_documents env ix =
     (case get_pdf_files env of
        Inl (FileNotFoundError msg) \<Rightarrow> Inr (failure_report msg, ix)
      | Inl e \<Rightarrow> Inl e
      | Inr pdf_files \<Rightarrow>
          if pdf_files = []
          then Inr (failure_report
                      (ascii ''Nebyly nalezeny '' @ [382, 225] @ ascii ''dn'' @ [233]
                         @ ascii '' PDF soubory''), ix)
          else
            (case make_batches pdf_files (batch_size ix) of
               Inl e \<Rightarrow> Inl e
             | Inr batches \<Rightarrow>
                 (let r = batches_loop env (length batches) 1 batches
                            (\<lparr>total_processed = 0, total_failed = 0, grand_total_chunks = 0,
                              all_errors = []\<rparr>, ix);
                      total = fst r;
                      success = (total_processed total > 0)
                  in Inr ([(''success'', PBool success),
                           (''total_processed'', PInt (int (total_processed total))),
                           (''total_failed'', PInt (int (total_failed total))),
                           (''total_chunks'', PInt (int (grand_total_chunks total))),
                           (''errors'', PList (map PStr (all_errors total))),
                           (''processed_files'', PList (map PStr (processed_files (snd r)))),
                           (''failed_files'', PList (map PStr (failed_files (snd r))))],
                          snd r))))"

section \<open>The response engine (\<open>RAGEngine.generate_response\<close>)\<close>

text \<open>
  The services the engine calls are parameters: the similarity search of the vector
  store, the completion call together with the extraction of its text (a function of the
  built context and the query, the fixed prompt template being part of it), and the
  \<open>format_citations_for_response\<close> method of \<open>self.citation_generator\<close>. Each returns
  its value or the exception it raises.
\<close>

record services =
  similarity_search :: "ustring \<Rightarrow> error + document list"
  chat_completion :: "ustring \<Rightarrow> ustring \<Rightarrow> error + ustring"
  citation_formatter :: "(string \<times> ustring) list list \<Rightarrow> error + ustring"

definition search_relevant_documents :: "services \<Rightarrow> ustring \<Rightarrow> document list" where
  "search_relevant_documents sv query =
     (case similarity_search sv query of Inl e \<Rightarrow> [] | Inr results \<Rightarrow> results)"

definition alist_get :: "(string \<times> ustring) list \<Rightarrow> string \<Rightarrow> ustring \<Rightarrow> ustring" where
  "alist_get d k dflt = (case map_of d k of None \<Rightarrow> dflt | Some v \<Rightarrow> v)"

definition no_match_message :: ustring where
  "no_match_message =
     ascii ''Omlouv'' @ [225] @ ascii ''m se, ale nena'' @ [353] @ ascii ''el jsem relevantn''
       @ [237] @ ascii '' informace v dostupn'' @ [253] @ ascii ''ch dokumentech o transformativn''
       @ [237] @ ascii ''m p'' @ [345, 237] @ ascii ''stupu ke konflikt'' @ [367] @ ascii ''m.''"

definition response_error_prefix :: ustring where
  "response_error_prefix =
     ascii ''Chyba p'' @ [345] @ ascii ''i generov'' @ [225] @ ascii ''n'' @ [237]
       @ ascii '' odpov'' @ [283] @ ascii ''di: ''"

fun context_loop ::
  "document list \<Rightarrow> ustring list \<times> (string \<times> ustring) list list \<Rightarrow>
   ustring list \<times> (string \<times> ustring) list list" where
  "context_loop [] acc = acc"
| "context_loop (doc # rest) acc =
     (let metadata = (case doc_metadata doc of None \<Rightarrow> [] | Some md \<Rightarrow> md);
          title = alist_get metadata ''title'' (ascii ''Nezn'' @ [225] @ ascii ''m'' @ [253]);
          author = alist_get metadata ''author''
                     (ascii ''Nezn'' @ [225] @ ascii ''m'' @ [253] @ ascii '' autor'')
      in context_loop rest
           (fst acc @ [ascii ''Zdroj: '' @ title @ ascii '' ('' @ author @ ascii '')'' @ nl
                         @ page_content doc],
            snd acc @ [metadata]))"

definition source_value :: "(string \<times> ustring) list \<Rightarrow> pyval" where
  "source_value md = PDict (map (\<lambda>kv. (fst kv, PStr (snd kv))) md)"

text \<open>The body of the outer \<open>try\<close>: \<open>Inl\<close> is an exception that reaches the outer
  handler.\<close>

definition generate_response_body :: "services \<Rightarrow> ustring \<Rightarrow> error + (string \<times> pyval) list" where
  "generate_response_body sv query =
     (let relevant_docs = search_relevant_documents sv query in
      if relevant_docs = []
      then Inr [(''response'', PStr no_match_message), (''sources'', PList []),
                (''citations'', PStr [])]
      else
        (let acc = context_loop relevant_docs ([], []);
             used_sources = snd acc;
             context = py_join (nl2 @ ascii ''---'' @ nl2) (fst acc)
         in case chat_completion sv context query of
              Inl e \<Rightarrow> Inl e
            | Inr response_text \<Rightarrow>
                (let citations = (case citation_formatter sv used_sources of
                                    Inl e \<Rightarrow> []
                                  | Inr c \<Rightarrow> c)
                 in Inr [(''response'', PStr response_text),
                         (''sources'', PList (map source_value used_sources)),
                         (''citations'', PStr citations),
                         (''num_sources'', PInt (int (length used_sources)))])))"

definition generate_response :: "services \<Rightarrow> ustring \<Rightarrow> (string \<times> pyval) list" where
  "generate_response sv query =
     (case generate_response_body sv query of
        Inr result \<Rightarrow> result
      | Inl e \<Rightarrow>
          [(''response'', PStr (response_error_prefix @ error_str e)), (''sources'', PList []),
           (''citations'', PStr [])])"

section \<open>Sample inputs\<close>

text \<open>Small inputs on which the functions are evaluated: a store holding one metadata
  dictionary, and two texts of two paragraphs each.\<close>

definition sample_store :: store where
  "sample_store = [[''filename'' \<mapsto> ascii ''f'']]"

definition sample_text :: ustring where
  "sample_text = ascii ''ab cd'' @ nl2 @ ascii ''efgh''"

definition sample_chunks :: "chunk list" where
  "sample_chunks =
     [\<lparr>c_id = ascii ''f_chunk_0'', c_text = ascii ''ab cd'', c_metadata = 1, c_index = 0\<rparr>,
      \<lparr>c_id = ascii ''f_chunk_1'', c_text = ascii ''cd'' @ nl2 @ ascii ''efgh'',
        c_metadata = 2, c_index = 1\<rparr>]"

definition sample_text2 :: ustring where
  "sample_text2 = ascii ''aaaaa'' @ nl2 @ ascii ''bbbbb''"

definition sample_chunks2 :: "chunk list" where
  "sample_chunks2 =
     [\<lparr>c_id = ascii ''f_chunk_0'', c_text = ascii ''aaaaa'' @ nl2 @ ascii ''bbbbb'',
        c_metadata = 1, c_index = 0\<rparr>]"

text \<open>A file name with two commas.\<close>

definition sample_filename :: ustring where
  "sample_filename = ascii ''Bush, Folger, Mediation.pdf''"

text \<open>Two sources that share a file name.\<close>

definition sample_source1 :: dict where
  "sample_source1 = [''filename'' \<mapsto> ascii ''X.pdf'', ''author'' \<mapsto> ascii ''Smith'',
     ''title'' \<mapsto> ascii ''the_road_to_peace'', ''year'' \<mapsto> ascii ''2010'']"

definition sample_source2 :: dict where
  "sample_source2 = [''filename'' \<mapsto> ascii ''X.pdf'']"

text \<open>Seven documents that PyMuPDF cannot open, an indexer with batches of three, and the
  same environment without the directory and with an empty directory.\<close>

definition sample_files :: "ustring list" where
  "sample_files =
     [ascii ''/pdfs/a.pdf'', ascii ''/pdfs/b.pdf'', ascii ''/pdfs/c.pdf'', ascii ''/pdfs/d.pdf'',
      ascii ''/pdfs/e.pdf'', ascii ''/pdfs/f.pdf'', ascii ''/pdfs/g.pdf'']"

definition sample_env :: environment where
  "sample_env =
     \<lparr>tables = ascii_tables, chunk_size = 400, chunk_overlap = 100,
      sources_dir = ascii ''/pdfs'', pdf_dir = Some sample_files,
      pdf_pages = (\<lambda>p. Inl (OtherError (ascii ''cannot open''))),
      add_documents = (\<lambda>d. None), sleep = None\<rparr>"

definition sample_indexer :: indexer where
  "sample_indexer = \<lparr>batch_size = 3, processed_files = [], failed_files = []\<rparr>"

definition missing_dir_env :: environment where
  "missing_dir_env = sample_env\<lparr>pdf_dir := None\<rparr>"

definition empty_dir_env :: environment where
  "empty_dir_env = sample_env\<lparr>pdf_dir := Some []\<rparr>"

text \<open>Services for the three paths of \<open>generate_response\<close>: nothing retrieved, a failing
  completion, a failing citation formatter.\<close>

definition sample_doc :: document where
  "sample_doc = \<lparr>page_content = ascii ''text'', doc_metadata = Some [(''filename'', ascii ''X.pdf'')]\<rparr>"

definition services_no_match :: services where
  "services_no_match =
     \<lparr>similarity_search = (\<lambda>q. Inr []),
      chat_completion = (\<lambda>c q. Inr (ascii ''answer'')),
      citation_formatter = (\<lambda>s. Inr [])\<rparr>"

definition services_generation_fails :: services where
  "services_generation_fails =
     \<lparr>similarity_search = (\<lambda>q. Inr [sample_doc]),
      chat_completion = (\<lambda>c q. Inl (OtherError (ascii ''timeout''))),
      citation_formatter = (\<lambda>s. Inr [])\<rparr>"

definition services_citation_fails :: services where
  "services_citation_fails =
     \<lparr>similarity_search = (\<lambda>q. Inr [sample_doc]),
      chat_completion = (\<lambda>c q. Inr (ascii ''answer'')),
      citation_formatter = (\<lambda>s. Inl (KeyError (ascii ''author'')))\<rparr>"

section \<open>Notions of the specification\<close>

text \<open>The key by which \<open>format_citations_for_response\<close> identifies a source: its
  \<open>filename\<close>, or \<open>Unknown\<close> when the key is absent.\<close>

definition source_key :: "dict \<Rightarrow> ustring" where
  "source_key source = dict_get source ''filename'' (ascii ''Unknown'')"

text \<open>Deduplication that keeps first-seen order, in the specification's words: of each
  value the first occurrence is kept, and the kept ones stay in their order.\<close>

definition first_seen :: "ustring list \<Rightarrow> ustring list" where
  "first_seen ks = rev (remdups (rev ks))"

text \<open>The first source with a given key.\<close>

definition first_source :: "dict list \<Rightarrow> ustring \<Rightarrow> dict" where
  "first_source sources k =
     (case find (\<lambda>s. source_key s = k) sources of Some s \<Rightarrow> s | None \<Rightarrow> Map.empty)"

text \<open>One iteration of the first loop of \<open>format_citations_for_response\<close>, as a
  function, to write the loop as a fold.\<close>

definition collect_step :: "unicode \<Rightarrow> (ustring \<times> ustring) list \<Rightarrow> dict \<Rightarrow> (ustring \<times> ustring) list" where
  "collect_step U uc source =
     (if map_of uc (source_key source) = None
      then uc @ [(source_key source, generate_reference_citation U source)] else uc)"

text \<open>The context and the list of sources \<open>generate_response\<close> builds from the retrieved
  documents.\<close>

definition built_context :: "services \<Rightarrow> ustring \<Rightarrow> ustring" where
  "built_context sv query =
     py_join (nl2 @ ascii ''---'' @ nl2)
       (fst (context_loop (search_relevant_documents sv query) ([], [])))"

definition built_sources :: "services \<Rightarrow> ustring \<Rightarrow> (string \<times> ustring) list list" where
  "built_sources sv query = snd (context_loop (search_relevant_documents sv query) ([], []))"









section \<open>Predicates used in the proofs\<close>

text \<open>A paragraph as \<open>chunk_text\<close> builds it: stripped and not empty.\<close>

definition solid :: "ustring \<Rightarrow> bool" where
  "solid p \<longleftrightarrow> p \<noteq> [] \<and> \<not> is_space (hd p) \<and> \<not> is_space (last p)"

text \<open>The running buffer is empty or ends with a character that is not whitespace.\<close>

definition open_buffer :: "ustring \<Rightarrow> bool" where
  "open_buffer cur \<longleftrightarrow> cur = [] \<or> \<not> is_space (last cur)"

text \<open>The invariant of \<open>chunk_loop\<close>: with \<open>h\<close> the store at the call and \<open>m\<close> the
  address of the metadata argument, the store has grown by one copy per chunk, and the
  chunks carry the indices, the addresses of the copies and the identifiers in order.\<close>

definition chunks_inv :: "store \<Rightarrow> nat \<Rightarrow> chunk list \<Rightarrow> store \<Rightarrow> bool" where
  "chunks_inv h m cs h' \<longleftrightarrow>
     h' = h @ replicate (length cs) (h ! m) \<and>
     map c_index cs = [0..<length cs] \<and>
     map c_metadata cs = [length h..<length h + length cs] \<and>
     map (\<lambda>c. Some (c_id c)) cs =
       map (\<lambda>i. map_option (\<lambda>fn. fn @ ascii ''_chunk_'' @ str_nat i) ((h ! m) ''filename''))
         [0..<length cs]"

section \<open>Properties of the string operations\<close>

lemma all_space_dropWhile:
  "(\<forall>x\<in>set (dropWhile P s). P x) \<longleftrightarrow> (\<forall>x\<in>set s. P x)"
proof
  assume a: "\<forall>x\<in>set (dropWhile P s). P x"
  have "dropWhile P s = []"
  proof (rule ccontr)
    assume n: "dropWhile P s \<noteq> []"
    then have "\<not> P (hd (dropWhile P s))" by (rule hd_dropWhile)
    moreover have "hd (dropWhile P s) \<in> set (dropWhile P s)" using n by simp
    ultimately show False using a by blast
  qed
  then show "\<forall>x\<in>set s. P x" by (simp add: dropWhile_eq_Nil_conv)
next
  assume "\<forall>x\<in>set s. P x"
  then show "\<forall>x\<in>set (dropWhile P s). P x" by (meson set_dropWhileD)
qed

lemma strip_Nil_iff: "strip s = [] \<longleftrightarrow> (\<forall>c\<in>set s. is_space c)"
  by (simp add: strip_def rstrip_def lstrip_def dropWhile_eq_Nil_conv all_space_dropWhile)

lemma rstrip_id: "s \<noteq> [] \<Longrightarrow> \<not> is_space (last s) \<Longrightarrow> rstrip s = s"
proof -
  assume a: "s \<noteq> []" "\<not> is_space (last s)"
  have "rev s \<noteq> []" "\<not> is_space (hd (rev s))" using a by (simp_all add: hd_rev)
  then have "dropWhile is_space (rev s) = rev s" by (cases "rev s") simp_all
  then show ?thesis by (simp add: rstrip_def)
qed

lemma rstrip_prefix: "prefix (rstrip s) s"
proof -
  have "rev s = takeWhile is_space (rev s) @ dropWhile is_space (rev s)" by simp
  then have "rev (rev s) = rev (dropWhile is_space (rev s)) @ rev (takeWhile is_space (rev s))"
    by (metis rev_append)
  then have "s = rstrip s @ rev (takeWhile is_space (rev s))" by (simp add: rstrip_def)
  then show ?thesis by (rule prefixI)
qed

lemma rstrip_last: "rstrip s \<noteq> [] \<Longrightarrow> \<not> is_space (last (rstrip s))"
  unfolding rstrip_def by (simp add: last_rev hd_dropWhile)

lemma lstrip_hd: "lstrip s \<noteq> [] \<Longrightarrow> \<not> is_space (hd (lstrip s))"
  unfolding lstrip_def by (rule hd_dropWhile)

lemma lstrip_suffix: "suffix (lstrip s) s"
  unfolding lstrip_def by (rule suffix_dropWhile)

lemma strip_ends:
  assumes "strip s \<noteq> []"
  shows "\<not> is_space (hd (strip s))" and "\<not> is_space (last (strip s))"
proof -
  have p: "prefix (strip s) (lstrip s)" unfolding strip_def by (rule rstrip_prefix)
  then have "lstrip s \<noteq> []" using assms by auto
  moreover have "hd (strip s) = hd (lstrip s)" using p assms by (auto simp: prefix_def)
  ultimately show "\<not> is_space (hd (strip s))" using lstrip_hd by simp
  show "\<not> is_space (last (strip s))" using assms unfolding strip_def by (rule rstrip_last)
qed

lemma strip_solid_buffer:
  assumes "b \<noteq> []" "\<not> is_space (last b)"
  shows "strip b = lstrip b" and "strip b \<noteq> []"
proof -
  have "last b \<in> set b" using assms by simp
  then have ne: "lstrip b \<noteq> []" using assms(2)
    by (auto simp: lstrip_def dropWhile_eq_Nil_conv)
  obtain zs where "b = zs @ lstrip b" using lstrip_suffix[of b] by (auto simp: suffix_def)
  then have "last (lstrip b) = last b" using ne by (metis last_appendR)
  then show "strip b = lstrip b" using ne assms(2) by (simp add: strip_def rstrip_id)
  then show "strip b \<noteq> []" using ne by simp
qed

lemma length_strip_le: "length (strip s) \<le> length s"
proof -
  have "length (strip s) \<le> length (lstrip s)" unfolding strip_def using rstrip_prefix prefix_length_le by blast
  moreover have "length (lstrip s) \<le> length s" using lstrip_suffix suffix_length_le by blast
  ultimately show ?thesis by simp
qed

lemma lstrip_append_prefix: "prefix (lstrip a) (lstrip (a @ b))"
proof (cases "\<forall>x\<in>set a. is_space x")
  case True
  then have "lstrip a = []" by (simp add: lstrip_def dropWhile_eq_Nil_conv)
  then show ?thesis by simp
next
  case False
  then show ?thesis by (auto simp: lstrip_def dropWhile_append)
qed

lemma paragraphs_solid: "p \<in> set (paragraphs text) \<Longrightarrow> solid p"
  by (auto simp: paragraphs_def solid_def strip_ends)

lemma open_buffer_step:
  "solid p \<Longrightarrow> open_buffer (x @ nl2 @ p)" "solid p \<Longrightarrow> open_buffer p"
  by (auto simp: solid_def open_buffer_def)

lemma open_buffer_strip: "open_buffer cur \<Longrightarrow> strip cur \<noteq> [] \<longleftrightarrow> cur \<noteq> []"
  using strip_solid_buffer(2)[of cur] by (auto simp: open_buffer_def strip_Nil_iff)

lemma append_chunk_Inr:
  assumes "append_chunk m st = Inr st'"
  obtains filename where "(heap st ! m) ''filename'' = Some filename"
    and "st' = st\<lparr>chunks := chunks st @
                 [\<lparr>c_id = filename @ ascii ''_chunk_'' @ str_nat (chunk_id st),
                   c_text = strip (current_chunk st),
                   c_metadata = length (heap st),
                   c_index = chunk_id st\<rparr>],
               heap := heap st @ [heap st ! m]\<rparr>"
  using assms by (auto simp: append_chunk_def split: option.splits)

lemma chunk_loop_trace:
  "chunk_loop sz ov m ps st = Inr st' \<Longrightarrow>
   map c_text (chunks st') @ (if strip (current_chunk st') \<noteq> [] then [strip (current_chunk st')] else [])
     = map c_text (chunks st) @ map strip (buffer_trace sz ov ps (current_chunk st))"
proof (induction ps arbitrary: st)
  case Nil
  then show ?case by simp
next
  case (Cons p rest)
  show ?case
  proof (cases "int (length (current_chunk st)) + int (length p) > sz \<and> current_chunk st \<noteq> []")
    case True
    with Cons.prems obtain st1 where a: "append_chunk m st = Inr st1"
      and l: "chunk_loop sz ov m rest
                  (st1\<lparr>chunk_id := chunk_id st1 + 1,
                       current_chunk := overlap_text ov (current_chunk st1) @ nl2 @ p\<rparr>) = Inr st'"
      by (auto split: sum.splits)
    from a obtain fn where st1: "st1 = st\<lparr>chunks := chunks st @
                 [\<lparr>c_id = fn @ ascii ''_chunk_'' @ str_nat (chunk_id st),
                   c_text = strip (current_chunk st),
                   c_metadata = length (heap st),
                   c_index = chunk_id st\<rparr>],
               heap := heap st @ [heap st ! m]\<rparr>" by (rule append_chunk_Inr)
    from Cons.IH[OF l] show ?thesis using True by (simp add: st1)
  next
    case False
    with Cons.prems have l: "chunk_loop sz ov m rest
             (st\<lparr>current_chunk :=
                   (if current_chunk st \<noteq> [] then current_chunk st @ nl2 @ p
                    else p)\<rparr>) = Inr st'" by (auto split: if_splits)
    from Cons.IH[OF l] show ?thesis using False by auto
  qed
qed

lemma chunk_text_texts:
  assumes "chunk_text sz ov text m h = Inr (cs, h')" "strip text \<noteq> []"
  shows "map c_text cs = map strip (buffer_trace sz ov (paragraphs text) [])"
proof -
  from assms obtain st where l: "chunk_loop sz ov m (paragraphs text)
                \<lparr>chunks = [], current_chunk = [], chunk_id = 0, heap = h\<rparr> = Inr st"
    by (auto simp: chunk_text_def split: sum.splits)
  note t = chunk_loop_trace[OF l]
  show ?thesis
  proof (cases "strip (current_chunk st) \<noteq> []")
    case True
    with assms l obtain st1 where a: "append_chunk m st = Inr st1" and cs: "cs = chunks st1"
      by (auto simp: chunk_text_def split: sum.splits)
    from a cs t True show ?thesis by (auto elim!: append_chunk_Inr)
  next
    case False
    with assms l have "cs = chunks st" by (auto simp: chunk_text_def split: sum.splits)
    with t False show ?thesis by simp
  qed
qed

lemma buffer_trace_hd:
  "buffer_trace sz ov ps cur \<noteq> [] \<Longrightarrow> prefix cur (hd (buffer_trace sz ov ps cur))"
proof (induction ps arbitrary: cur)
  case Nil then show ?case by (simp split: if_splits)
next
  case (Cons p rest)
  show ?case
  proof (cases "int (length cur) + int (length p) > sz \<and> cur \<noteq> []")
    case True then show ?thesis by simp
  next
    case False
    let ?c = "if cur \<noteq> [] then cur @ nl2 @ p else p"
    from False Cons.prems have "buffer_trace sz ov rest ?c \<noteq> []" by auto
    from Cons.IH[OF this] have "prefix ?c (hd (buffer_trace sz ov rest ?c))" .
    moreover have "prefix cur ?c" by simp
    ultimately have "prefix cur (hd (buffer_trace sz ov rest ?c))" by (rule prefix_order.trans[rotated])
    then show ?thesis using False by auto
  qed
qed

lemma buffer_trace_overlap:
  "Suc i < length (buffer_trace sz ov ps cur) \<Longrightarrow>
   prefix (overlap_text ov (buffer_trace sz ov ps cur ! i) @ nl2) (buffer_trace sz ov ps cur ! Suc i)"
proof (induction ps arbitrary: cur i)
  case Nil then show ?case by (simp split: if_splits)
next
  case (Cons p rest)
  show ?case
  proof (cases "int (length cur) + int (length p) > sz \<and> cur \<noteq> []")
    case True
    let ?c = "overlap_text ov cur @ nl2 @ p"
    let ?t = "buffer_trace sz ov rest ?c"
    have bt: "buffer_trace sz ov (p # rest) cur = cur # ?t" using True by simp
    show ?thesis
    proof (cases i)
      case 0
      from Cons.prems bt have ne: "?t \<noteq> []" by auto
      from buffer_trace_hd[OF ne] have "prefix ?c (hd ?t)" .
      then have "prefix (overlap_text ov cur @ nl2) (hd ?t)"
        by (metis append_assoc append_prefixD)
      then show ?thesis using 0 bt ne by (simp add: hd_conv_nth)
    next
      case (Suc j)
      from Cons.prems bt Suc have "Suc j < length ?t" by simp
      from Cons.IH[OF this] show ?thesis using Suc bt by simp
    qed
  next
    case False
    let ?c = "if cur \<noteq> [] then cur @ nl2 @ p else p"
    have bt: "buffer_trace sz ov (p # rest) cur = buffer_trace sz ov rest ?c" using False by auto
    from Cons.prems have "Suc i < length (buffer_trace sz ov rest ?c)" unfolding bt .
    from Cons.IH[OF this] show ?thesis unfolding bt .
  qed
qed

lemma buffer_trace_solid:
  "\<forall>p\<in>set ps. solid p \<Longrightarrow> open_buffer cur \<Longrightarrow> b \<in> set (buffer_trace sz ov ps cur) \<Longrightarrow>
   b \<noteq> [] \<and> \<not> is_space (last b)"
proof (induction ps arbitrary: cur)
  case Nil
  then show ?case using open_buffer_strip[of cur] by (auto simp: open_buffer_def split: if_splits)
next
  case (Cons p rest)
  have sp: "solid p" using Cons.prems by simp
  show ?case
  proof (cases "int (length cur) + int (length p) > sz \<and> cur \<noteq> []")
    case True
    with Cons.prems have "b = cur \<or> b \<in> set (buffer_trace sz ov rest (overlap_text ov cur @ nl2 @ p))" by auto
    then show ?thesis
    proof
      assume "b = cur" then show ?thesis using True Cons.prems(2) by (auto simp: open_buffer_def)
    next
      assume "b \<in> set (buffer_trace sz ov rest (overlap_text ov cur @ nl2 @ p))"
      then show ?thesis using Cons.IH[of "overlap_text ov cur @ nl2 @ p"] Cons.prems(1) open_buffer_step(1)[OF sp] by auto
    qed
  next
    case False
    let ?c = "if cur \<noteq> [] then cur @ nl2 @ p else p"
    have "open_buffer ?c" using open_buffer_step[OF sp] by auto
    moreover have "b \<in> set (buffer_trace sz ov rest ?c)" using False Cons.prems(3) by auto
    ultimately show ?thesis using Cons.IH[of ?c] Cons.prems(1) by auto
  qed
qed

lemma buffer_trace_nonempty:
  "\<forall>p\<in>set ps. solid p \<Longrightarrow> open_buffer cur \<Longrightarrow> ps \<noteq> [] \<or> cur \<noteq> [] \<Longrightarrow>
   buffer_trace sz ov ps cur \<noteq> []"
proof (induction ps arbitrary: cur)
  case Nil
  then show ?case using open_buffer_strip[of cur] by auto
next
  case (Cons p rest)
  have sp: "solid p" using Cons.prems by simp
  show ?case
  proof (cases "int (length cur) + int (length p) > sz \<and> cur \<noteq> []")
    case True then show ?thesis by simp
  next
    case False
    let ?c = "if cur \<noteq> [] then cur @ nl2 @ p else p"
    have "open_buffer ?c" using open_buffer_step[OF sp] by auto
    moreover have "?c \<noteq> []" using sp by (auto simp: solid_def)
    ultimately have "buffer_trace sz ov rest ?c \<noteq> []" using Cons.IH[of ?c] Cons.prems(1) by auto
    then show ?thesis using False by auto
  qed
qed

lemma chunks_inv_init: "chunks_inv h m [] h"
  by (simp add: chunks_inv_def)

lemma append_chunk_inv:
  assumes "append_chunk m st = Inr st'" "chunks_inv h m (chunks st) (heap st)"
    "chunk_id st = length (chunks st)" "m < length h"
  shows "chunks_inv h m (chunks st') (heap st')"
    and "length (chunks st') = Suc (chunk_id st)"
    and "chunk_id st' = chunk_id st" and "current_chunk st' = current_chunk st"
proof -
  have hm: "heap st ! m = h ! m" using assms(2,4) by (simp add: chunks_inv_def nth_append)
  from assms(1) obtain fn where fn: "(heap st ! m) ''filename'' = Some fn"
    and st': "st' = st\<lparr>chunks := chunks st @
                 [\<lparr>c_id = fn @ ascii ''_chunk_'' @ str_nat (chunk_id st),
                   c_text = strip (current_chunk st),
                   c_metadata = length (heap st),
                   c_index = chunk_id st\<rparr>],
               heap := heap st @ [heap st ! m]\<rparr>" by (rule append_chunk_Inr)
  have lh: "length (heap st) = length h + length (chunks st)"
    using assms(2) by (simp add: chunks_inv_def)
  show "chunks_inv h m (chunks st') (heap st')"
    using assms(2,3) fn hm lh unfolding chunks_inv_def st'
    by (simp add: replicate_append_same)
  show "length (chunks st') = Suc (chunk_id st)" using assms(3) by (simp add: st')
  show "chunk_id st' = chunk_id st" by (simp add: st')
  show "current_chunk st' = current_chunk st" by (simp add: st')
qed

lemma chunk_loop_inv:
  "chunk_loop sz ov m ps st = Inr st' \<Longrightarrow> chunks_inv h m (chunks st) (heap st) \<Longrightarrow>
   chunk_id st = length (chunks st) \<Longrightarrow> m < length h \<Longrightarrow>
   chunks_inv h m (chunks st') (heap st') \<and> chunk_id st' = length (chunks st')"
proof (induction ps arbitrary: st)
  case Nil
  then show ?case by simp
next
  case (Cons p rest)
  show ?case
  proof (cases "int (length (current_chunk st)) + int (length p) > sz \<and> current_chunk st \<noteq> []")
    case True
    with Cons.prems(1) obtain st1 where a: "append_chunk m st = Inr st1"
      and l: "chunk_loop sz ov m rest
                  (st1\<lparr>chunk_id := chunk_id st1 + 1,
                       current_chunk := overlap_text ov (current_chunk st1) @ nl2 @ p\<rparr>) = Inr st'"
      by (auto split: sum.splits)
    note f = append_chunk_inv[OF a Cons.prems(2,3,4)]
    show ?thesis
      by (rule Cons.IH[OF l]) (use f Cons.prems(4) in simp_all)
  next
    case False
    with Cons.prems(1) have l: "chunk_loop sz ov m rest
             (st\<lparr>current_chunk :=
                   (if current_chunk st \<noteq> [] then current_chunk st @ nl2 @ p
                    else p)\<rparr>) = Inr st'" by (auto split: if_splits)
    show ?thesis
      by (rule Cons.IH[OF l]) (use Cons.prems in simp_all)
  qed
qed

lemma chunk_text_inv:
  assumes "chunk_text sz ov text m h = Inr (cs, h')" "m < length h"
  shows "chunks_inv h m cs h'"
proof (cases "strip text = []")
  case True
  with assms show ?thesis by (simp add: chunk_text_def chunks_inv_init)
next
  case False
  with assms obtain st where l: "chunk_loop sz ov m (paragraphs text)
                \<lparr>chunks = [], current_chunk = [], chunk_id = 0, heap = h\<rparr> = Inr st"
    by (auto simp: chunk_text_def split: sum.splits)
  have i: "chunks_inv h m (chunks st) (heap st) \<and> chunk_id st = length (chunks st)"
    by (rule chunk_loop_inv[OF l]) (simp_all add: chunks_inv_init assms(2))
  show ?thesis
  proof (cases "strip (current_chunk st) \<noteq> []")
    case True
    with assms l False obtain st1 where a: "append_chunk m st = Inr st1"
      and cs: "cs = chunks st1" "h' = heap st1"
      by (auto simp: chunk_text_def split: sum.splits)
    from append_chunk_inv(1)[OF a _ _ assms(2)] i cs show ?thesis by simp
  next
    case F2: False
    with assms l False have "cs = chunks st" "h' = heap st"
      by (auto simp: chunk_text_def split: sum.splits)
    with i show ?thesis by simp
  qed
qed

text \<open>
  Claim C3. Chunking a text that is empty or only whitespace returns the empty list and
  raises nothing. Whenever \<open>chunk_text\<close> returns, the \<open>chunk_index\<close> values of the
  returned list are \<open>0, 1, ..., n - 1\<close> in order, and the \<open>id\<close> of every chunk is the
  metadata filename followed by \<open>_chunk_\<close> and the decimal digits of its index.
\<close>

theorem chunk_text_index_and_id:
  assumes "m < length h"
  shows "(strip text = [] \<longrightarrow> chunk_text sz ov text m h = Inr ([], h)) \<and>
         (\<forall>cs h'. chunk_text sz ov text m h = Inr (cs, h') \<longrightarrow>
            map c_index cs = [0..<length cs] \<and>
            (\<forall>i<length cs. \<exists>filename. (h ! m) ''filename'' = Some filename \<and>
                c_id (cs ! i) = filename @ ascii ''_chunk_'' @ str_nat i))"
proof (intro conjI allI impI)
  assume "strip text = []"
  then show "chunk_text sz ov text m h = Inr ([], h)" by (simp add: chunk_text_def)
next
  fix cs h' assume a: "chunk_text sz ov text m h = Inr (cs, h')"
  from chunk_text_inv[OF a assms] show "map c_index cs = [0..<length cs]"
    by (simp add: chunks_inv_def)
next
  fix cs h' i assume a: "chunk_text sz ov text m h = Inr (cs, h')" and i: "i < length cs"
  from chunk_text_inv[OF a assms]
  have "map (\<lambda>c. Some (c_id c)) cs =
       map (\<lambda>i. map_option (\<lambda>fn. fn @ ascii ''_chunk_'' @ str_nat i) ((h ! m) ''filename''))
         [0..<length cs]" by (simp add: chunks_inv_def)
  then have "map (\<lambda>c. Some (c_id c)) cs ! i =
       map (\<lambda>i. map_option (\<lambda>fn. fn @ ascii ''_chunk_'' @ str_nat i) ((h ! m) ''filename''))
         [0..<length cs] ! i" by simp
  then have "Some (c_id (cs ! i)) =
     map_option (\<lambda>fn. fn @ ascii ''_chunk_'' @ str_nat i) ((h ! m) ''filename'')"
    using i by simp
  then show "\<exists>filename. (h ! m) ''filename'' = Some filename \<and>
                c_id (cs ! i) = filename @ ascii ''_chunk_'' @ str_nat i"
    by (cases "(h ! m) ''filename''") auto
qed

text \<open>
  Claim C9. \<open>chunk_text\<close> changes no dictionary that existed before the call, so the
  metadata argument is unchanged. Every returned chunk holds a dictionary of its own,
  allocated by the call, with the contents of the argument, and the addresses are
  pairwise distinct: overwriting the metadata of one chunk leaves the caller's
  dictionaries and the metadata of every other chunk as they were.
\<close>

theorem chunk_text_copies_metadata:
  assumes "m < length h" "chunk_text sz ov text m h = Inr (cs, h')"
  shows "take (length h) h' = h \<and> length h' = length h + length cs \<and>
         distinct (map c_metadata cs) \<and>
         (\<forall>i<length cs. length h \<le> c_metadata (cs ! i) \<and> c_metadata (cs ! i) < length h' \<and>
             h' ! c_metadata (cs ! i) = h ! m) \<and>
         (\<forall>i<length cs. \<forall>d.
             take (length h) (h'[c_metadata (cs ! i) := d]) = h \<and>
             (\<forall>j<length cs. j \<noteq> i \<longrightarrow>
                (h'[c_metadata (cs ! i) := d]) ! c_metadata (cs ! j) = h ! m))"
proof -
  from chunk_text_inv[OF assms(2,1)]
  have h': "h' = h @ replicate (length cs) (h ! m)"
    and md: "map c_metadata cs = [length h..<length h + length cs]"
    by (simp_all add: chunks_inv_def)
  have mdi: "c_metadata (cs ! i) = length h + i" if "i < length cs" for i
  proof -
    have "map c_metadata cs ! i = [length h..<length h + length cs] ! i" using md by simp
    then show ?thesis using that by simp
  qed
  have d: "distinct (map c_metadata cs)" unfolding md by simp
  show ?thesis
    using d by (auto simp: h' mdi nth_append)
qed

lemma py_split_from_covers:
  "x \<in> set acc \<union> set s \<Longrightarrow> x \<notin> set sep \<Longrightarrow> \<exists>p\<in>set (py_split_from sep acc s). x \<in> set p"
proof (induction sep acc s rule: py_split_from.induct)
  case (1 sep acc)
  then show ?case by simp
next
  case (2 sep acc c cs)
  show ?case
  proof (cases "sep \<noteq> [] \<and> take (length sep) (c # cs) = sep")
    case True
    show ?thesis
    proof (cases "x \<in> set acc")
      case True
      then show ?thesis using \<open>sep \<noteq> [] \<and> take (length sep) (c # cs) = sep\<close> by simp
    next
      case False
      with "2.prems" have "x \<in> set (c # cs)" by simp
      moreover have "c # cs = sep @ drop (length sep) (c # cs)"
        using True by (metis append_take_drop_id)
      ultimately have "x \<in> set (drop (length sep) (c # cs))"
        using "2.prems"(2) by (metis Un_iff set_append)
      then have "\<exists>p\<in>set (py_split_from sep [] (drop (length sep) (c # cs))). x \<in> set p"
        using "2.IH"(1)[OF True] "2.prems"(2) by simp
      then show ?thesis using True by simp
    qed
  next
    case False
    have "x \<in> set (acc @ [c]) \<union> set cs" using "2.prems"(1) by auto
    from "2.IH"(2)[OF False this "2.prems"(2)] show ?thesis using False by auto
  qed
qed

lemma py_split_from_within:
  "p \<in> set (py_split_from sep acc s) \<Longrightarrow> set p \<subseteq> set acc \<union> set s"
proof (induction sep acc s rule: py_split_from.induct)
  case (1 sep acc)
  then show ?case by simp
next
  case (2 sep acc c cs)
  show ?case
  proof (cases "sep \<noteq> [] \<and> take (length sep) (c # cs) = sep")
    case True
    with "2.prems" have "p = acc \<or> p \<in> set (py_split_from sep [] (drop (length sep) (c # cs)))"
      by simp
    then show ?thesis
    proof
      assume "p = acc" then show ?thesis by auto
    next
      assume "p \<in> set (py_split_from sep [] (drop (length sep) (c # cs)))"
      from "2.IH"(1)[OF True this] have "set p \<subseteq> set (drop (length sep) (c # cs))" by simp
      moreover have "set (drop (length sep) (c # cs)) \<subseteq> set (c # cs)" by (rule set_drop_subset)
      ultimately show ?thesis by auto
    qed
  next
    case False
    with "2.prems" have "p \<in> set (py_split_from sep (acc @ [c]) cs)" by auto
    from "2.IH"(2)[OF False this] show ?thesis by auto
  qed
qed

lemma paragraphs_of_blank:
  assumes "strip text = []"
  shows "paragraphs text = []"
proof -
  have "strip p = []" if "p \<in> set (py_split nl2 text)" for p
  proof -
    have "set p \<subseteq> set text" using py_split_from_within[of p nl2 "[]" "text"] that
      by (simp add: py_split_def)
    then show ?thesis using assms by (auto simp: strip_Nil_iff)
  qed
  then show ?thesis by (auto simp: paragraphs_def filter_empty_conv)
qed

lemma paragraphs_nonempty:
  assumes "strip text \<noteq> []"
  shows "paragraphs text \<noteq> []"
proof -
  from assms obtain x where x: "x \<in> set text" "\<not> is_space x" by (auto simp: strip_Nil_iff)
  then have "x \<notin> set nl2" by (auto simp: nl2_def is_space_def)
  with x obtain p where p: "p \<in> set (py_split nl2 text)" "x \<in> set p"
    using py_split_from_covers[of x "[]" "text" nl2] by (auto simp: py_split_def)
  then have "strip p \<noteq> []" using x(2) by (auto simp: strip_Nil_iff)
  with p show ?thesis by (auto simp: paragraphs_def filter_empty_conv)
qed


lemma chunk_text_Nil_texts:
  assumes "chunk_text sz ov text m h = Inr (cs, h')" "cs \<noteq> []"
  shows "strip text \<noteq> []"
  using assms by (auto simp: chunk_text_def)

lemma overlap_text_last:
  "0 < ov \<Longrightarrow> overlap_text ov cur = drop (length cur - nat ov) cur"
  by (auto simp: overlap_text_def)

lemma overlap_text_length: "0 < ov \<Longrightarrow> int (length (overlap_text ov cur)) \<le> ov"
  by (auto simp: overlap_text_def)

text \<open>
  Claim C1, as amended. Let \<open>b\<close> be the buffer closed for chunk \<open>i\<close>, and let chunk
  \<open>i + 1\<close> exist. The text of chunk \<open>i\<close> is \<open>b\<close> stripped; the next buffer starts
  with the overlap taken from \<open>b\<close>; and the text of chunk \<open>i + 1\<close> starts with that
  overlap with its leading whitespace removed. For a positive \<open>chunk_overlap\<close> the
  overlap is the last \<open>chunk_overlap\<close> characters of \<open>b\<close>, all of \<open>b\<close> when it is
  no longer than that.
\<close>

theorem chunk_text_overlap_prefix:
  assumes "chunk_text sz ov text m h = Inr (cs, h')" "Suc i < length cs"
  shows "length (buffer_trace sz ov (paragraphs text) []) = length cs \<and>
         c_text (cs ! i) = strip (buffer_trace sz ov (paragraphs text) [] ! i) \<and>
         prefix (overlap_text ov (buffer_trace sz ov (paragraphs text) [] ! i))
                (buffer_trace sz ov (paragraphs text) [] ! Suc i) \<and>
         prefix (lstrip (overlap_text ov (buffer_trace sz ov (paragraphs text) [] ! i)))
                (c_text (cs ! Suc i)) \<and>
         (0 < ov \<longrightarrow> overlap_text ov (buffer_trace sz ov (paragraphs text) [] ! i) =
            drop (length (buffer_trace sz ov (paragraphs text) [] ! i) - nat ov)
                 (buffer_trace sz ov (paragraphs text) [] ! i))"
proof -
  let ?bt = "buffer_trace sz ov (paragraphs text) []"
  have ne: "strip text \<noteq> []" using assms by (intro chunk_text_Nil_texts[OF assms(1)]) auto
  have t: "map c_text cs = map strip ?bt" by (rule chunk_text_texts[OF assms(1) ne])
  then have len: "length ?bt = length cs" by (metis length_map)
  have nth: "c_text (cs ! k) = strip (?bt ! k)" if "k < length cs" for k
  proof -
    have "map c_text cs ! k = map strip ?bt ! k" using t by simp
    then show ?thesis using that len by simp
  qed
  have si: "Suc i < length ?bt" using assms(2) len by simp
  have pre: "prefix (overlap_text ov (?bt ! i) @ nl2) (?bt ! Suc i)"
    by (rule buffer_trace_overlap[OF si])
  then obtain zs where zs: "?bt ! Suc i = overlap_text ov (?bt ! i) @ (nl2 @ zs)"
    by (auto simp: prefix_def)
  have "?bt ! Suc i \<in> set ?bt" using si by simp
  then have "?bt ! Suc i \<noteq> [] \<and> \<not> is_space (last (?bt ! Suc i))"
    by (intro buffer_trace_solid[of "paragraphs text" "[]"])
       (auto simp: paragraphs_solid open_buffer_def)
  then have "strip (?bt ! Suc i) = lstrip (?bt ! Suc i)" using strip_solid_buffer(1) by blast
  then have "c_text (cs ! Suc i) = lstrip (overlap_text ov (?bt ! i) @ (nl2 @ zs))"
    using nth[of "Suc i"] assms(2) zs by simp
  then have p2: "prefix (lstrip (overlap_text ov (?bt ! i))) (c_text (cs ! Suc i))"
    using lstrip_append_prefix by simp
  have p1: "prefix (overlap_text ov (?bt ! i)) (?bt ! Suc i)" using zs by simp
  show ?thesis using len nth[of i] assms(2) p1 p2 overlap_text_last by simp
qed

lemma buffer_trace_length:
  "0 < ov \<Longrightarrow> \<forall>p\<in>set ps. int (length p) \<le> L \<Longrightarrow>
   int (length cur) \<le> max (sz + 2) (ov + 2 + L) \<Longrightarrow>
   b \<in> set (buffer_trace sz ov ps cur) \<Longrightarrow> int (length b) \<le> max (sz + 2) (ov + 2 + L)"
proof (induction ps arbitrary: cur)
  case Nil
  then show ?case by (auto split: if_splits)
next
  case (Cons p rest)
  have lp: "int (length p) \<le> L" using Cons.prems(2) by simp
  show ?case
  proof (cases "int (length cur) + int (length p) > sz \<and> cur \<noteq> []")
    case True
    let ?c = "overlap_text ov cur @ nl2 @ p"
    have "int (length ?c) \<le> max (sz + 2) (ov + 2 + L)"
      using overlap_text_length[OF Cons.prems(1), of cur] lp by (simp add: nl2_def)
    then have "b \<in> set (buffer_trace sz ov rest ?c) \<Longrightarrow> ?thesis"
      using Cons.IH[of ?c] Cons.prems(1,2) by simp
    then show ?thesis using True Cons.prems(3,4) by auto
  next
    case False
    let ?c = "if cur \<noteq> [] then cur @ nl2 @ p else p"
    have "int (length ?c) \<le> max (sz + 2) (ov + 2 + L)"
      using False lp Cons.prems(1) by (auto simp: nl2_def)
    moreover have "b \<in> set (buffer_trace sz ov rest ?c)" using False Cons.prems(4) by auto
    ultimately show ?thesis using Cons.IH[of ?c] Cons.prems(1,2) by simp
  qed
qed

lemma sublist_dropWhile:
  assumes "p \<noteq> []" "\<not> P (hd p)" "sublist p b"
  shows "sublist p (dropWhile P b)"
proof -
  from assms(3) obtain xs ys where b: "b = xs @ p @ ys" by (auto simp: sublist_def)
  show ?thesis
  proof (cases "\<forall>x\<in>set xs. P x")
    case True
    have "dropWhile P (p @ ys) = p @ ys" using assms(1,2) by (cases p) auto
    then have "dropWhile P b = p @ ys" using True b by (simp add: dropWhile_append)
    then show ?thesis by (metis sublist_appendI append_Nil)
  next
    case False
    then have "dropWhile P b = dropWhile P xs @ p @ ys" using b by (auto simp: dropWhile_append)
    then show ?thesis by (metis sublist_appendI)
  qed
qed

lemma buffer_trace_keeps:
  "\<forall>p\<in>set ps. solid p \<Longrightarrow> open_buffer cur \<Longrightarrow> q \<in> set ps \<Longrightarrow>
   \<exists>b\<in>set (buffer_trace sz ov ps cur). sublist q b"
proof (induction ps arbitrary: cur)
  case Nil
  then show ?case by simp
next
  case (Cons p rest)
  have sp: "solid p" using Cons.prems(1) by simp
  define c where "c = (if int (length cur) + int (length p) > sz \<and> cur \<noteq> []
                       then overlap_text ov cur @ nl2 @ p
                       else if cur \<noteq> [] then cur @ nl2 @ p else p)"
  have sub: "set (buffer_trace sz ov rest c) \<subseteq> set (buffer_trace sz ov (p # rest) cur)"
    by (auto simp: c_def)
  have oc: "open_buffer c" using open_buffer_step[OF sp] by (auto simp: c_def)
  have cne: "c \<noteq> []" using sp by (auto simp: c_def solid_def)
  have suf: "suffix p c" by (auto simp: c_def suffix_def)
  show ?case
  proof (cases "q \<in> set rest")
    case True
    have "\<forall>p\<in>set rest. solid p" using Cons.prems(1) by simp
    from Cons.IH[OF this oc True] obtain b where "b \<in> set (buffer_trace sz ov rest c)" "sublist q b"
      by blast
    then show ?thesis using sub by blast
  next
    case False
    then have q: "q = p" using Cons.prems(3) by simp
    have ne: "buffer_trace sz ov rest c \<noteq> []"
      by (rule buffer_trace_nonempty) (use Cons.prems(1) oc cne in auto)
    from buffer_trace_hd[OF ne] have "prefix c (hd (buffer_trace sz ov rest c))" .
    with suf have "sublist p (hd (buffer_trace sz ov rest c))"
      by (auto simp: prefix_def suffix_def sublist_def, metis append.assoc)
    moreover have "hd (buffer_trace sz ov rest c) \<in> set (buffer_trace sz ov rest c)"
      using ne by simp
    ultimately show ?thesis using sub q by blast
  qed
qed

text \<open>
  Claim C2, as amended. For a positive \<open>chunk_overlap\<close>, and \<open>L\<close> a bound on the length
  of the paragraphs, the text of every chunk has at most
  \<open>max (chunk_size + 2) (chunk_overlap + 2 + L)\<close> characters, which is
  \<open>chunk_size + chunk_overlap + 2\<close> at most when no paragraph exceeds \<open>chunk_size\<close>;
  and every paragraph occurs whole, as a contiguous piece, in the text of some chunk.
\<close>

theorem chunk_text_length_bound:
  assumes "chunk_text sz ov text m h = Inr (cs, h')" "0 < ov"
    "\<forall>p\<in>set (paragraphs text). int (length p) \<le> L"
  shows "(\<forall>c\<in>set cs. int (length (c_text c)) \<le> max (sz + 2) (ov + 2 + L)) \<and>
         (\<forall>p\<in>set (paragraphs text). \<exists>c\<in>set cs. sublist p (c_text c))"
proof (cases "strip text = []")
  case True
  then have "cs = []" using assms(1) by (simp add: chunk_text_def)
  moreover have "paragraphs text = []" using True by (rule paragraphs_of_blank)
  ultimately show ?thesis by simp
next
  case False
  let ?bt = "buffer_trace sz ov (paragraphs text) []"
  have t: "map c_text cs = map strip ?bt" by (rule chunk_text_texts[OF assms(1) False])
  then have st: "set (map c_text cs) = set (map strip ?bt)" by simp
  have solid_b: "b \<noteq> [] \<and> \<not> is_space (last b)" if "b \<in> set ?bt" for b
    using that by (intro buffer_trace_solid[of "paragraphs text" "[]"])
       (auto simp: paragraphs_solid open_buffer_def)
  have 1: "int (length (c_text c)) \<le> max (sz + 2) (ov + 2 + L)" if "c \<in> set cs" for c
  proof -
    have "c_text c \<in> set (map strip ?bt)" using that st by auto
    then obtain b where b: "b \<in> set ?bt" "c_text c = strip b" by auto
    have "int (length b) \<le> max (sz + 2) (ov + 2 + L)"
    proof (rule buffer_trace_length[OF assms(2,3) _ b(1)])
      obtain p where "p \<in> set (paragraphs text)"
        using paragraphs_nonempty[OF False] by (cases "paragraphs text") auto
      then have "0 \<le> L" using assms(3) by fastforce
      then show "int (length ([]::ustring)) \<le> max (sz + 2) (ov + 2 + L)" using assms(2) by simp
    qed
    then show ?thesis using length_strip_le[of b] b(2) by simp
  qed
  have 2: "\<exists>c\<in>set cs. sublist p (c_text c)" if "p \<in> set (paragraphs text)" for p
  proof -
    have sp: "solid p" using that by (rule paragraphs_solid)
    have "\<forall>q\<in>set (paragraphs text). solid q" using paragraphs_solid by blast
    moreover have "open_buffer []" by (simp add: open_buffer_def)
    ultimately have "\<exists>b\<in>set ?bt. sublist p b" using that by (rule buffer_trace_keeps)
    then obtain b where b: "b \<in> set ?bt" "sublist p b" by blast
    have "strip b = lstrip b" using solid_b[OF b(1)] strip_solid_buffer(1) by blast
    then have "sublist p (strip b)"
      using sublist_dropWhile[of p is_space b] sp b(2) by (simp add: solid_def lstrip_def)
    moreover have "strip b \<in> set (map c_text cs)" using b(1) st by auto
    ultimately show ?thesis by auto
  qed
  show ?thesis using 1 2 by blast
qed

section \<open>The chunker on the sample inputs\<close>

lemmas eval_defs = chunk_text_def paragraphs_def py_split_def strip_def lstrip_def rstrip_def
  is_space_def append_chunk_def overlap_text_def nl2_def ascii_def str_nat.simps

lemma sample_run:
  "chunk_text 6 3 sample_text 0 sample_store =
     Inr (sample_chunks, sample_store @ [sample_store ! 0, sample_store ! 0])"
  by (simp add: sample_text_def sample_store_def sample_chunks_def eval_defs)

lemma sample_trace:
  "buffer_trace 6 3 (paragraphs sample_text) [] = [ascii ''ab cd'', ascii '' cd'' @ nl2 @ ascii ''efgh'']"
  by (simp add: sample_text_def eval_defs)

text \<open>
  Claim C1 as stated fails: with \<open>chunk_size = 6\<close> and \<open>chunk_overlap = 3\<close> the text
  \<open>"ab cd\n\nefgh"\<close> gives the chunks \<open>"ab cd"\<close> and \<open>"cd\n\nefgh"\<close>. The last three
  characters of the first buffer are \<open>" cd"\<close>, and the second chunk does not start
  with them, the leading blank having been stripped.
\<close>

theorem chunk_text_overlap_prefix_counterexample:
  "chunk_text 6 3 sample_text 0 sample_store =
     Inr (sample_chunks, sample_store @ [sample_store ! 0, sample_store ! 0]) \<and>
   buffer_trace 6 3 (paragraphs sample_text) [] ! 0 = ascii ''ab cd'' \<and>
   c_text (sample_chunks ! 0) = ascii ''ab cd'' \<and>
   drop (length (ascii ''ab cd'') - 3) (ascii ''ab cd'') = ascii '' cd'' \<and>
   c_text (sample_chunks ! 1) = ascii ''cd'' @ nl2 @ ascii ''efgh'' \<and>
   \<not> prefix (drop (length (ascii ''ab cd'') - 3) (ascii ''ab cd'')) (c_text (sample_chunks ! 1))"
  using sample_run sample_trace by (simp add: sample_chunks_def ascii_def nl2_def)

text \<open>The amended claim C1 on the same run.\<close>

theorem chunk_text_overlap_prefix_witness:
  "chunk_text 6 3 sample_text 0 sample_store =
     Inr (sample_chunks, sample_store @ [sample_store ! 0, sample_store ! 0]) \<and>
   Suc 0 < length sample_chunks \<and>
   buffer_trace 6 3 (paragraphs sample_text) [] ! 0 = ascii ''ab cd'' \<and>
   overlap_text 3 (ascii ''ab cd'') = ascii '' cd'' \<and>
   lstrip (ascii '' cd'') = ascii ''cd'' \<and>
   prefix (lstrip (overlap_text 3 (buffer_trace 6 3 (paragraphs sample_text) [] ! 0)))
     (c_text (sample_chunks ! Suc 0))"
proof -
  have l: "Suc 0 < length sample_chunks" by (simp add: sample_chunks_def)
  have o: "overlap_text 3 (ascii ''ab cd'') = ascii '' cd''"
    "lstrip (ascii '' cd'') = ascii ''cd''"
    by (simp_all add: overlap_text_def ascii_def lstrip_def is_space_def)
  from chunk_text_overlap_prefix[OF sample_run l]
  have "prefix (lstrip (overlap_text 3 (buffer_trace 6 3 (paragraphs sample_text) [] ! 0)))
     (c_text (sample_chunks ! Suc 0))" by blast
  then show ?thesis using sample_run l o sample_trace by simp
qed

text \<open>Claim C3 on the sample run and on a text of whitespace only.\<close>

theorem chunk_text_index_and_id_witness:
  "0 < length sample_store \<and>
   chunk_text 6 3 sample_text 0 sample_store =
     Inr (sample_chunks, sample_store @ [sample_store ! 0, sample_store ! 0]) \<and>
   map c_index sample_chunks = [0, 1] \<and>
   (sample_store ! 0) ''filename'' = Some (ascii ''f'') \<and>
   c_id (sample_chunks ! 1) = ascii ''f'' @ ascii ''_chunk_'' @ str_nat 1 \<and>
   strip [32, 10] = [] \<and>
   chunk_text 6 3 [32, 10] 0 sample_store = Inr ([], sample_store)"
proof -
  have h: "0 < length sample_store" by (simp add: sample_store_def)
  have b: "strip [32, 10] = []" by (simp add: strip_def lstrip_def rstrip_def is_space_def)
  have l: "1 < length sample_chunks" by (simp add: sample_chunks_def)
  have f: "(sample_store ! 0) ''filename'' = Some (ascii ''f'')" by (simp add: sample_store_def)
  from chunk_text_index_and_id[OF h, of "[32, 10]" 6 3] b
  have e: "chunk_text 6 3 [32, 10] 0 sample_store = Inr ([], sample_store)" by blast
  from chunk_text_index_and_id[OF h, of sample_text 6 3] sample_run
  have i: "map c_index sample_chunks = [0..<length sample_chunks]"
    and j: "\<forall>i<length sample_chunks. \<exists>filename. (sample_store ! 0) ''filename'' = Some filename \<and>
                c_id (sample_chunks ! i) = filename @ ascii ''_chunk_'' @ str_nat i" by blast+
  from j l f have "c_id (sample_chunks ! 1) = ascii ''f'' @ ascii ''_chunk_'' @ str_nat 1"
    by fastforce
  moreover have "map c_index sample_chunks = [0, 1]" using i by (simp add: sample_chunks_def)
  ultimately show ?thesis using h b e f sample_run by simp
qed

text \<open>Claim C9 on the sample run: the first chunk's metadata is overwritten.\<close>

theorem chunk_text_copies_metadata_witness:
  "0 < length sample_store \<and>
   chunk_text 6 3 sample_text 0 sample_store =
     Inr (sample_chunks, sample_store @ [sample_store ! 0, sample_store ! 0]) \<and>
   take (length sample_store) (sample_store @ [sample_store ! 0, sample_store ! 0]) = sample_store \<and>
   distinct (map c_metadata sample_chunks) \<and>
   take (length sample_store)
     ((sample_store @ [sample_store ! 0, sample_store ! 0])[c_metadata (sample_chunks ! 0) := Map.empty])
     = sample_store \<and>
   ((sample_store @ [sample_store ! 0, sample_store ! 0])[c_metadata (sample_chunks ! 0) := Map.empty])
     ! c_metadata (sample_chunks ! 1) = sample_store ! 0"
proof -
  have h: "0 < length sample_store" by (simp add: sample_store_def)
  note t = chunk_text_copies_metadata[OF h sample_run]
  have l: "0 < length sample_chunks" "1 < length sample_chunks" by (simp_all add: sample_chunks_def)
  from t l have "take (length sample_store)
     ((sample_store @ [sample_store ! 0, sample_store ! 0])[c_metadata (sample_chunks ! 0) := Map.empty])
     = sample_store \<and>
   ((sample_store @ [sample_store ! 0, sample_store ! 0])[c_metadata (sample_chunks ! 0) := Map.empty])
     ! c_metadata (sample_chunks ! 1) = sample_store ! 0" by (metis zero_neq_one)
  then show ?thesis using t h sample_run by simp
qed

lemma sample_run2:
  "chunk_text 10 3 sample_text2 0 sample_store = Inr (sample_chunks2, sample_store @ [sample_store ! 0])"
  by (simp add: sample_text2_def sample_store_def sample_chunks2_def eval_defs)

lemma sample_paragraphs2: "paragraphs sample_text2 = [ascii ''aaaaa'', ascii ''bbbbb'']"
  by (simp add: sample_text2_def eval_defs)

text \<open>
  Claim C2 as stated fails: with \<open>chunk_size = 10\<close> the paragraphs \<open>"aaaaa"\<close> and
  \<open>"bbbbb"\<close>, neither longer than 10, are joined into one chunk of 12 characters,
  the test of the loop not counting the separator.
\<close>

theorem chunk_text_length_bound_counterexample:
  "chunk_text 10 3 sample_text2 0 sample_store = Inr (sample_chunks2, sample_store @ [sample_store ! 0]) \<and>
   paragraphs sample_text2 = [ascii ''aaaaa'', ascii ''bbbbb''] \<and>
   int (length (ascii ''aaaaa'')) \<le> 10 \<and> int (length (ascii ''bbbbb'')) \<le> 10 \<and>
   \<not> int (length (c_text (sample_chunks2 ! 0))) \<le> 10"
  using sample_run2 sample_paragraphs2 by (simp add: sample_chunks2_def ascii_def nl2_def)

text \<open>The amended claim C2 on the same run.\<close>

theorem chunk_text_length_bound_witness:
  "chunk_text 10 3 sample_text2 0 sample_store = Inr (sample_chunks2, sample_store @ [sample_store ! 0]) \<and>
   (0::int) < 3 \<and>
   paragraphs sample_text2 = [ascii ''aaaaa'', ascii ''bbbbb''] \<and>
   int (length (c_text (sample_chunks2 ! 0))) \<le> max (10 + 2) (3 + 2 + 5) \<and>
   sublist (ascii ''bbbbb'') (c_text (sample_chunks2 ! 0))"
proof -
  have p: "\<forall>p\<in>set (paragraphs sample_text2). int (length p) \<le> 5"
    by (simp add: sample_paragraphs2 ascii_def)
  have o: "(0::int) < 3" by simp
  from chunk_text_length_bound[OF sample_run2 o p] sample_paragraphs2
  have "int (length (c_text (sample_chunks2 ! 0))) \<le> max (10 + 2) (3 + 2 + 5) \<and>
        sublist (ascii ''bbbbb'') (c_text (sample_chunks2 ! 0))"
    by (simp add: sample_chunks2_def)
  then show ?thesis using sample_run2 sample_paragraphs2 by simp
qed

section \<open>The metadata extractor on a name with two commas\<close>

lemma sample_filename_code:
  "sample_filename = [66, 117, 115, 104, 44, 32, 70, 111, 108, 103, 101, 114, 44, 32, 77, 101, 100, 105, 97, 116, 105, 111, 110, 46, 112, 100, 102]"
  by (simp add: sample_filename_def ascii_def)

lemma sample_filename_name:
  "py_replace (ascii ''.pdf'') [] sample_filename = ascii ''Bush, Folger, Mediation''"
  by (simp add: sample_filename_code ascii_def)

text \<open>
  Claim C8 fails on the code for a name with two commas. For
  \<open>"Bush, Folger, Mediation.pdf"\<close> the title is \<open>"Folger"\<close>, the piece between the
  first and the second comma, while everything after the first comma, trimmed, is
  \<open>"Folger, Mediation"\<close>: the code takes \<open>parts[1]\<close> of a split at every comma.
\<close>

theorem extract_metadata_two_commas:
  "extract_metadata_from_filename ascii_tables sample_filename ''title'' = Some (ascii ''Folger'') \<and>
   extract_metadata_from_filename ascii_tables sample_filename ''author'' = Some (ascii ''Bush'') \<and>
   strip (drop (Suc (length (takeWhile (\<lambda>c. c \<noteq> 44) (ascii ''Bush, Folger, Mediation''))))
            (ascii ''Bush, Folger, Mediation'')) = ascii ''Folger, Mediation''"
  unfolding extract_metadata_from_filename_def sample_filename_name
  by (simp add: ascii_def py_split_def strip_def lstrip_def rstrip_def is_space_def Let_def
           split: option.split)

section \<open>Properties of the citation formatter\<close>

lemma collect_unique_foldl: "collect_unique U ss uc = foldl (collect_step U) uc ss"
  by (induction ss arbitrary: uc) (simp_all add: collect_step_def source_key_def Let_def)

lemma first_seen_snoc:
  "first_seen (ks @ [k]) = (if k \<in> set ks then first_seen ks else first_seen ks @ [k])"
  by (simp add: first_seen_def)

lemma set_first_seen: "set (first_seen ks) = set ks"
  by (simp add: first_seen_def)

lemma distinct_first_seen: "distinct (first_seen ks)"
  by (simp add: first_seen_def)

lemma find_append_cases:
  "find P (xs @ ys) = (case find P xs of Some x \<Rightarrow> Some x | None \<Rightarrow> find P ys)"
  by (induction xs) simp_all

lemma first_source_snoc_old:
  "k \<in> source_key ` set ss \<Longrightarrow> first_source (ss @ [s]) k = first_source ss k"
proof -
  assume "k \<in> source_key ` set ss"
  then have "find (\<lambda>s. source_key s = k) ss \<noteq> None" by (auto simp: find_None_iff)
  then show ?thesis by (auto simp: first_source_def find_append_cases)
qed

lemma first_source_snoc_new:
  "source_key s \<notin> source_key ` set ss \<Longrightarrow> first_source (ss @ [s]) (source_key s) = s"
proof -
  assume "source_key s \<notin> source_key ` set ss"
  then have "find (\<lambda>t. source_key t = source_key s) ss = None"
    by (auto simp: find_None_iff image_iff)
  then show ?thesis by (simp add: first_source_def find_append_cases)
qed

lemma collect_closed_form:
  "foldl (collect_step U) [] ss =
     map (\<lambda>k. (k, generate_reference_citation U (first_source ss k)))
       (first_seen (map source_key ss))"
proof (induction ss rule: rev_induct)
  case Nil
  then show ?case by (simp add: first_seen_def)
next
  case (snoc s ss)
  let ?G = "\<lambda>ss k. (k, generate_reference_citation U (first_source ss k))"
  let ?F = "first_seen (map source_key ss)"
  have none: "map_of (map (?G ss) ?F) (source_key s) = None \<longleftrightarrow> source_key s \<notin> source_key ` set ss"
    by (simp add: map_of_eq_None_iff image_image set_first_seen)
  have old: "map (?G (ss @ [s])) ?F = map (?G ss) ?F"
    by (rule map_cong) (auto simp: set_first_seen first_source_snoc_old)
  have st: "foldl (collect_step U) [] (ss @ [s]) = collect_step U (map (?G ss) ?F) s"
    using snoc.IH by simp
  show ?case
  proof (cases "source_key s \<in> source_key ` set ss")
    case True
    then have "foldl (collect_step U) [] (ss @ [s]) = map (?G ss) ?F"
      unfolding st collect_step_def using none by simp
    moreover have "first_seen (map source_key (ss @ [s])) = ?F"
      using True by (simp add: first_seen_snoc)
    ultimately show ?thesis using old by simp
  next
    case False
    then have "foldl (collect_step U) [] (ss @ [s]) =
        map (?G ss) ?F @ [(source_key s, generate_reference_citation U s)]"
      unfolding st collect_step_def using none by simp
    moreover have "first_seen (map source_key (ss @ [s])) = ?F @ [source_key s]"
      using False by (simp add: first_seen_snoc)
    ultimately show ?thesis using old first_source_snoc_new[OF False] by simp
  qed
qed

lemma number_citations_closed_form:
  "number_citations i cs t =
     t @ concat (map (\<lambda>(j, c). str_nat j @ ascii ''. '' @ c @ nl) (zip [i..<i + length cs] cs))"
proof (induction cs arbitrary: i t)
  case Nil
  then show ?case by simp
next
  case (Cons c cs)
  have "i < i + length (c # cs)" by simp
  then have "[i..<i + length (c # cs)] = i # [Suc i..<i + length (c # cs)]"
    by (rule upt_conv_Cons)
  then have "[i..<i + length (c # cs)] = i # [Suc i..<Suc i + length cs]" by simp
  then show ?case using Cons.IH[of "i + 1"] by simp
qed

text \<open>
  Claim C4. \<open>format_citations_for_response\<close> returns the empty string for no sources.
  Otherwise it returns the fixed header followed by one line per distinct filename, in
  first-seen order, numbered from 1, each line holding the reference citation of the
  first source with that filename. A missing key does not make it fail: a source
  without \<open>filename\<close> is keyed \<open>Unknown\<close>, and the citation of a source without
  author, title and year is built from \<open>Unknown Author\<close>, \<open>Untitled\<close> and \<open>n.d.\<close>
\<close>

theorem format_citations_for_response_dedup:
  "format_citations_for_response U [] = [] \<and>
   (sources \<noteq> [] \<longrightarrow>
      format_citations_for_response U sources =
        citations_header @
        concat (map (\<lambda>(i, k). str_nat i @ ascii ''. '' @
                       generate_reference_citation U (first_source sources k) @ nl)
                  (zip [1..<Suc (length (first_seen (map source_key sources)))]
                       (first_seen (map source_key sources))))) \<and>
   distinct (first_seen (map source_key sources)) \<and>
   set (first_seen (map source_key sources)) = source_key ` set sources \<and>
   source_key Map.empty = ascii ''Unknown'' \<and>
   generate_reference_citation U Map.empty =
     ascii ''Unknown Author (n.d.). '' @ str_capitalize U (ascii ''Untitled'') @ ascii ''.''"
proof (intro conjI impI)
  show "format_citations_for_response U [] = []" by (simp add: format_citations_for_response_def)
next
  assume ne: "sources \<noteq> []"
  let ?ks = "first_seen (map source_key sources)"
  have "map snd (collect_unique U sources []) =
          map (\<lambda>k. generate_reference_citation U (first_source sources k)) ?ks"
    by (simp add: collect_unique_foldl collect_closed_form comp_def)
  then have "format_citations_for_response U sources =
     citations_header @ concat (map (\<lambda>(j, c). str_nat j @ ascii ''. '' @ c @ nl)
        (zip [1..<1 + length ?ks] (map (\<lambda>k. generate_reference_citation U (first_source sources k)) ?ks)))"
    using ne by (simp add: format_citations_for_response_def number_citations_closed_form)
  also have "zip [1..<1 + length ?ks] (map (\<lambda>k. generate_reference_citation U (first_source sources k)) ?ks)
     = map (\<lambda>(i, k). (i, generate_reference_citation U (first_source sources k))) (zip [1..<1 + length ?ks] ?ks)"
    by (simp add: zip_map2)
  finally show "format_citations_for_response U sources =
        citations_header @
        concat (map (\<lambda>(i, k). str_nat i @ ascii ''. '' @
                       generate_reference_citation U (first_source sources k) @ nl)
                  (zip [1..<Suc (length ?ks)] ?ks))"
    by (simp add: comp_def case_prod_unfold)
next
  show "distinct (first_seen (map source_key sources))" by (rule distinct_first_seen)
  show "set (first_seen (map source_key sources)) = source_key ` set sources"
    by (simp add: set_first_seen)
  show "source_key Map.empty = ascii ''Unknown''" by (simp add: source_key_def dict_get_def)
  show "generate_reference_citation U Map.empty =
     ascii ''Unknown Author (n.d.). '' @ str_capitalize U (ascii ''Untitled'') @ ascii ''.''"
    by (simp add: generate_reference_citation_def dict_get_def clean_author_name_def
        clean_title_def title_case_def py_words_def is_space_def ascii_def)
qed

lemma sample_keys:
  "first_seen (map source_key [sample_source1, sample_source2]) = [ascii ''X.pdf'']"
  by (simp add: first_seen_def source_key_def dict_get_def sample_source1_def sample_source2_def ascii_def)

lemma sample_citation:
  "generate_reference_citation ascii_tables sample_source1 = ascii ''Smith (2010). The Road to Peace.''"
  by (simp add: generate_reference_citation_def dict_get_def clean_author_name_def
        clean_title_def title_case_def py_words_def is_space_def ascii_def sample_source1_def
        ascii_tables_def lowercase_words_def ascii_upper_char_def ascii_lower_char_def)

text \<open>Claim C4 on two sources that share the filename \<open>X.pdf\<close>: one numbered entry.\<close>

theorem format_citations_for_response_dedup_witness:
  "[sample_source1, sample_source2] \<noteq> [] \<and>
   source_key sample_source1 = ascii ''X.pdf'' \<and> source_key sample_source2 = ascii ''X.pdf'' \<and>
   format_citations_for_response ascii_tables [sample_source1, sample_source2] =
     citations_header @ ascii ''1. Smith (2010). The Road to Peace.'' @ nl"
proof -
  have ne: "[sample_source1, sample_source2] \<noteq> []" by simp
  have k: "source_key sample_source1 = ascii ''X.pdf''" "source_key sample_source2 = ascii ''X.pdf''"
    by (simp_all add: source_key_def dict_get_def sample_source1_def sample_source2_def)
  have f: "first_source [sample_source1, sample_source2] (ascii ''X.pdf'') = sample_source1"
    by (simp add: first_source_def k)
  from format_citations_for_response_dedup[of ascii_tables "[sample_source1, sample_source2]"] ne
  have "format_citations_for_response ascii_tables [sample_source1, sample_source2] =
        citations_header @
        concat (map (\<lambda>(i, k). str_nat i @ ascii ''. '' @
                       generate_reference_citation ascii_tables
                         (first_source [sample_source1, sample_source2] k) @ nl)
                  (zip [1..<Suc (length (first_seen (map source_key [sample_source1, sample_source2])))]
                       (first_seen (map source_key [sample_source1, sample_source2]))))"
    by blast
  then show ?thesis unfolding sample_keys using ne k f sample_citation
    by (simp add: str_nat.simps ascii_def)
qed

section \<open>Properties of the batch indexer\<close>











text \<open>
  Claim C6. When the source directory is missing, and when it holds no document,
  \<open>index_all_documents\<close> raises nothing and returns a failure report, whose \<open>success\<close>
  is \<open>False\<close>. In every report it returns, \<open>success\<close> is \<open>True\<close> exactly when
  \<open>total_processed\<close> is positive.
\<close>

theorem index_all_documents_success:
  "(pdf_dir env = None \<longrightarrow>
      (\<exists>msg. index_all_documents env ix = Inr (failure_report msg, ix))) \<and>
   (pdf_dir env = Some [] \<longrightarrow>
      (\<exists>msg. index_all_documents env ix = Inr (failure_report msg, ix))) \<and>
   map_of (failure_report msg0) ''success'' = Some (PBool False) \<and>
   (\<forall>report ix'. index_all_documents env ix = Inr (report, ix') \<longrightarrow>
      (\<exists>n. map_of report ''total_processed'' = Some (PInt n) \<and>
           map_of report ''success'' = Some (PBool (n > 0))))"
proof (intro conjI impI allI)
  assume "pdf_dir env = None"
  then have "index_all_documents env ix = Inr (failure_report
      (ascii ''Slo'' @ [382] @ ascii ''ka '' @ sources_dir env @ ascii '' neexistuje''), ix)"
    by (simp add: index_all_documents_def get_pdf_files_def)
  then show "\<exists>msg. index_all_documents env ix = Inr (failure_report msg, ix)" by blast
next
  assume "pdf_dir env = Some []"
  then have "index_all_documents env ix = Inr (failure_report
      (ascii ''Nebyly nalezeny '' @ [382, 225] @ ascii ''dn'' @ [233] @ ascii '' PDF soubory''), ix)"
    by (simp add: index_all_documents_def get_pdf_files_def)
  then show "\<exists>msg. index_all_documents env ix = Inr (failure_report msg, ix)" by blast
next
  show "map_of (failure_report msg0) ''success'' = Some (PBool False)"
    by (simp add: failure_report_def)
next
  fix report ix'
  assume a: "index_all_documents env ix = Inr (report, ix')"
  show "\<exists>n. map_of report ''total_processed'' = Some (PInt n) \<and>
           map_of report ''success'' = Some (PBool (n > 0))"
  proof (cases "pdf_dir env")
    case None
    with a show ?thesis
      by (auto simp: index_all_documents_def get_pdf_files_def failure_report_def)
  next
    case (Some fs)
    with a show ?thesis
      by (auto simp: index_all_documents_def get_pdf_files_def failure_report_def Let_def
               split: if_splits sum.splits)
  qed
qed

lemma sample_batches:
  "make_batches
     [ascii ''/pdfs/a.pdf'', ascii ''/pdfs/b.pdf'', ascii ''/pdfs/c.pdf'', ascii ''/pdfs/d.pdf'',
      ascii ''/pdfs/e.pdf'', ascii ''/pdfs/f.pdf'', ascii ''/pdfs/g.pdf''] 3 =
     Inr [[ascii ''/pdfs/a.pdf'', ascii ''/pdfs/b.pdf'', ascii ''/pdfs/c.pdf''],
          [ascii ''/pdfs/d.pdf'', ascii ''/pdfs/e.pdf'', ascii ''/pdfs/f.pdf''],
          [ascii ''/pdfs/g.pdf'']]"
  by (simp add: make_batches_def py_range_def upt_rec)

lemma sample_process:
  "process_document sample_env f s =
     Inr ((fst s)\<lparr>failed := failed (fst s) + 1\<rparr>,
          (snd s)\<lparr>failed_files := failed_files (snd s) @ [f]\<rparr>)"
  by (simp add: process_document_def extract_text_and_metadata_def extract_text_from_pdf_def
      sample_env_def Let_def strip_def lstrip_def rstrip_def)

lemma sample_index_run:
  "index_all_documents sample_env sample_indexer =
     Inr ([(''success'', PBool False), (''total_processed'', PInt 0), (''total_failed'', PInt 7),
           (''total_chunks'', PInt 0), (''errors'', PList []), (''processed_files'', PList []),
           (''failed_files'', PList (map PStr sample_files))],
          \<lparr>batch_size = 3, processed_files = [], failed_files = sample_files\<rparr>)"
proof -
  have g: "get_pdf_files sample_env = Inr sample_files"
    by (simp add: get_pdf_files_def sample_env_def)
  have b: "batch_size sample_indexer = 3" by (simp add: sample_indexer_def)
  have ne: "sample_files \<noteq> []" by (simp add: sample_files_def)
  have s: "sleep sample_env = None" by (simp add: sample_env_def)
  show ?thesis
    using ne
    by (simp add: index_all_documents_def g b sample_files_def sample_batches Let_def
        process_batch_def sample_process s sample_indexer_def)
qed














text \<open>Claim C6 on a missing directory, an empty directory, and a run in which every
  document fails.\<close>

theorem index_all_documents_success_witness:
  "pdf_dir missing_dir_env = None \<and>
   index_all_documents missing_dir_env sample_indexer =
     Inr (failure_report (ascii ''Slo'' @ [382] @ ascii ''ka /pdfs neexistuje''), sample_indexer) \<and>
   pdf_dir empty_dir_env = Some [] \<and>
   index_all_documents empty_dir_env sample_indexer =
     Inr (failure_report (ascii ''Nebyly nalezeny '' @ [382, 225] @ ascii ''dn'' @ [233]
                            @ ascii '' PDF soubory''), sample_indexer) \<and>
   map_of (failure_report []) ''success'' = Some (PBool False) \<and>
   (\<exists>report ix'. index_all_documents sample_env sample_indexer = Inr (report, ix') \<and>
      map_of report ''total_processed'' = Some (PInt 0) \<and>
      map_of report ''success'' = Some (PBool False))"
proof -
  have m: "pdf_dir missing_dir_env = None" "pdf_dir empty_dir_env = Some []"
    by (simp_all add: missing_dir_env_def empty_dir_env_def)
  have 1: "index_all_documents missing_dir_env sample_indexer =
     Inr (failure_report (ascii ''Slo'' @ [382] @ ascii ''ka /pdfs neexistuje''), sample_indexer)"
    using index_all_documents_success[of missing_dir_env sample_indexer "[]"] m
    by (simp add: index_all_documents_def get_pdf_files_def missing_dir_env_def sample_env_def ascii_def)
  have 2: "index_all_documents empty_dir_env sample_indexer =
     Inr (failure_report (ascii ''Nebyly nalezeny '' @ [382, 225] @ ascii ''dn'' @ [233]
                            @ ascii '' PDF soubory''), sample_indexer)"
    using index_all_documents_success[of empty_dir_env sample_indexer "[]"] m
    by (simp add: index_all_documents_def get_pdf_files_def empty_dir_env_def sample_env_def)
  have 3: "map_of (failure_report []) ''success'' = Some (PBool False)"
    using index_all_documents_success[of sample_env sample_indexer "[]"] by (simp only: simp_thms)
  have 4: "index_all_documents sample_env sample_indexer =
     Inr ([(''success'', PBool False), (''total_processed'', PInt 0), (''total_failed'', PInt 7),
           (''total_chunks'', PInt 0), (''errors'', PList []), (''processed_files'', PList []),
           (''failed_files'', PList (map PStr sample_files))],
          \<lparr>batch_size = 3, processed_files = [], failed_files = sample_files\<rparr>) \<and>
     map_of [(''success'', PBool False), (''total_processed'', PInt 0), (''total_failed'', PInt 7),
           (''total_chunks'', PInt 0), (''errors'', PList []), (''processed_files'', PList []),
           (''failed_files'', PList (map PStr sample_files))] ''total_processed'' = Some (PInt 0) \<and>
     map_of [(''success'', PBool False), (''total_processed'', PInt 0), (''total_failed'', PInt 7),
           (''total_chunks'', PInt 0), (''errors'', PList []), (''processed_files'', PList []),
           (''failed_files'', PList (map PStr sample_files))] ''success'' = Some (PBool False)"
    using sample_index_run by simp
  then have e: "\<exists>report ix'. index_all_documents sample_env sample_indexer = Inr (report, ix') \<and>
      map_of report ''total_processed'' = Some (PInt 0) \<and>
      map_of report ''success'' = Some (PBool False)"
    by (rule_tac x = "[(''success'', PBool False), (''total_processed'', PInt 0), (''total_failed'', PInt 7),
           (''total_chunks'', PInt 0), (''errors'', PList []), (''processed_files'', PList []),
           (''failed_files'', PList (map PStr sample_files))]" in exI,
        rule_tac x = "\<lparr>batch_size = 3, processed_files = [], failed_files = sample_files\<rparr>" in exI)
  show ?thesis using m 1 2 3 e by (simp only: simp_thms)
qed

section \<open>Properties of the response engine\<close>

lemma response_error_nonempty: "response_error_prefix @ msg \<noteq> []"
  by (simp add: response_error_prefix_def ascii_def)

lemma no_match_message_nonempty: "no_match_message \<noteq> []"
  by (simp add: no_match_message_def ascii_def)

lemma generate_response_no_match:
  "search_relevant_documents sv query = [] \<Longrightarrow>
   generate_response sv query =
     [(''response'', PStr no_match_message), (''sources'', PList []), (''citations'', PStr [])]"
  by (simp add: generate_response_def generate_response_body_def)

lemma generate_response_generation_error:
  "search_relevant_documents sv query \<noteq> [] \<Longrightarrow>
   chat_completion sv (built_context sv query) query = Inl e \<Longrightarrow>
   generate_response sv query =
     [(''response'', PStr (response_error_prefix @ error_str e)), (''sources'', PList []),
      (''citations'', PStr [])]"
  by (simp add: generate_response_def generate_response_body_def built_context_def Let_def)

lemma generate_response_success:
  "search_relevant_documents sv query \<noteq> [] \<Longrightarrow>
   chat_completion sv (built_context sv query) query = Inr response_text \<Longrightarrow>
   generate_response sv query =
     [(''response'', PStr response_text),
      (''sources'', PList (map source_value (built_sources sv query))),
      (''citations'', PStr (case citation_formatter sv (built_sources sv query) of
                              Inl e \<Rightarrow> [] | Inr c \<Rightarrow> c)),
      (''num_sources'', PInt (int (length (built_sources sv query))))]"
  by (simp add: generate_response_def generate_response_body_def built_context_def
      built_sources_def Let_def)

text \<open>
  Claim C7. \<open>generate_response\<close> returns a result on every path. When nothing is
  retrieved, also because the search failed, the result is the fixed message with no
  sources and no citations. When the completion fails, the result carries a non-empty
  explanation as its response, no sources and no citations. When the completion succeeds
  and the citation formatter fails, only the citations become the empty string: the
  response and the sources are those of the successful run.
\<close>

theorem generate_response_never_raises:
  "(search_relevant_documents sv query = [] \<longrightarrow>
      generate_response sv query =
        [(''response'', PStr no_match_message), (''sources'', PList []),
         (''citations'', PStr [])]) \<and>
   (similarity_search sv query = Inl e0 \<longrightarrow> search_relevant_documents sv query = []) \<and>
   (search_relevant_documents sv query \<noteq> [] \<and>
    chat_completion sv (built_context sv query) query = Inl e \<longrightarrow>
      generate_response sv query =
        [(''response'', PStr (response_error_prefix @ error_str e)), (''sources'', PList []),
         (''citations'', PStr [])] \<and>
      response_error_prefix @ error_str e \<noteq> []) \<and>
   (search_relevant_documents sv query \<noteq> [] \<and>
    chat_completion sv (built_context sv query) query = Inr response_text \<and>
    citation_formatter sv (built_sources sv query) = Inl e' \<longrightarrow>
      generate_response sv query =
        [(''response'', PStr response_text),
         (''sources'', PList (map source_value (built_sources sv query))),
         (''citations'', PStr []),
         (''num_sources'', PInt (int (length (built_sources sv query))))])"
proof (intro conjI impI)
  assume "search_relevant_documents sv query = []"
  then show "generate_response sv query =
        [(''response'', PStr no_match_message), (''sources'', PList []),
         (''citations'', PStr [])]" by (rule generate_response_no_match)
next
  assume "similarity_search sv query = Inl e0"
  then show "search_relevant_documents sv query = []"
    by (simp add: search_relevant_documents_def)
next
  assume a: "search_relevant_documents sv query \<noteq> [] \<and>
    chat_completion sv (built_context sv query) query = Inl e"
  then show "generate_response sv query =
        [(''response'', PStr (response_error_prefix @ error_str e)), (''sources'', PList []),
         (''citations'', PStr [])]"
    using generate_response_generation_error[of sv query e] by simp
  show "response_error_prefix @ error_str e \<noteq> []" by (rule response_error_nonempty)
next
  assume a: "search_relevant_documents sv query \<noteq> [] \<and>
    chat_completion sv (built_context sv query) query = Inr response_text \<and>
    citation_formatter sv (built_sources sv query) = Inl e'"
  then show "generate_response sv query =
        [(''response'', PStr response_text),
         (''sources'', PList (map source_value (built_sources sv query))),
         (''citations'', PStr []),
         (''num_sources'', PInt (int (length (built_sources sv query))))]"
    using generate_response_success[of sv query response_text] by simp
qed

text \<open>
  Claim C10. The keys of the result of \<open>generate_response\<close> are \<open>response\<close>,
  \<open>sources\<close> and \<open>citations\<close>, followed by \<open>num_sources\<close> exactly when documents
  were retrieved and the completion succeeded.
\<close>

theorem generate_response_keys:
  "map fst (generate_response sv query) =
     (if search_relevant_documents sv query \<noteq> [] \<and>
         (\<exists>t. chat_completion sv (built_context sv query) query = Inr t)
      then [''response'', ''sources'', ''citations'', ''num_sources'']
      else [''response'', ''sources'', ''citations''])"
proof (cases "search_relevant_documents sv query = []")
  case True
  then show ?thesis by (simp add: generate_response_no_match)
next
  case False
  show ?thesis
  proof (cases "chat_completion sv (built_context sv query) query")
    case (Inl e)
    then show ?thesis using False by (simp add: generate_response_generation_error)
  next
    case (Inr t)
    then show ?thesis using False by (simp add: generate_response_success)
  qed
qed

lemma sample_search:
  "search_relevant_documents services_no_match q = []"
  "search_relevant_documents services_generation_fails q = [sample_doc]"
  "search_relevant_documents services_citation_fails q = [sample_doc]"
  by (simp_all add: search_relevant_documents_def services_no_match_def
      services_generation_fails_def services_citation_fails_def)

text \<open>Claim C7 on the three sample services.\<close>

theorem generate_response_never_raises_witness:
  "search_relevant_documents services_no_match (ascii ''q'') = [] \<and>
   generate_response services_no_match (ascii ''q'') =
     [(''response'', PStr no_match_message), (''sources'', PList []), (''citations'', PStr [])] \<and>
   search_relevant_documents services_generation_fails (ascii ''q'') \<noteq> [] \<and>
   chat_completion services_generation_fails
     (built_context services_generation_fails (ascii ''q'')) (ascii ''q'') =
       Inl (OtherError (ascii ''timeout'')) \<and>
   generate_response services_generation_fails (ascii ''q'') =
     [(''response'', PStr (response_error_prefix @ ascii ''timeout'')), (''sources'', PList []),
      (''citations'', PStr [])] \<and>
   search_relevant_documents services_citation_fails (ascii ''q'') \<noteq> [] \<and>
   chat_completion services_citation_fails
     (built_context services_citation_fails (ascii ''q'')) (ascii ''q'') = Inr (ascii ''answer'') \<and>
   citation_formatter services_citation_fails (built_sources services_citation_fails (ascii ''q''))
     = Inl (KeyError (ascii ''author'')) \<and>
   generate_response services_citation_fails (ascii ''q'') =
     [(''response'', PStr (ascii ''answer'')),
      (''sources'', PList [PDict [(''filename'', PStr (ascii ''X.pdf''))]]),
      (''citations'', PStr []),
      (''num_sources'', PInt 1)]"
proof -
  have g: "chat_completion services_generation_fails
     (built_context services_generation_fails (ascii ''q'')) (ascii ''q'') =
       Inl (OtherError (ascii ''timeout''))" by (simp add: services_generation_fails_def)
  have c: "chat_completion services_citation_fails
     (built_context services_citation_fails (ascii ''q'')) (ascii ''q'') = Inr (ascii ''answer'')"
    "citation_formatter services_citation_fails (built_sources services_citation_fails (ascii ''q''))
     = Inl (KeyError (ascii ''author''))" by (simp_all add: services_citation_fails_def)
  have s: "built_sources services_citation_fails (ascii ''q'') = [[(''filename'', ascii ''X.pdf'')]]"
    by (simp add: built_sources_def sample_search sample_doc_def Let_def)
  show ?thesis
    using generate_response_never_raises[of services_no_match "ascii ''q''"]
      generate_response_never_raises[of services_generation_fails "ascii ''q''" _ "OtherError (ascii ''timeout'')"]
      generate_response_never_raises[of services_citation_fails "ascii ''q''" _ _ "ascii ''answer''" "KeyError (ascii ''author'')"]
      g c
    by (simp add: sample_search s source_value_def error_str_def)
qed

text \<open>Claim C10 on the three sample services.\<close>

theorem generate_response_keys_witness:
  "map fst (generate_response services_no_match (ascii ''q'')) = [''response'', ''sources'', ''citations''] \<and>
   map fst (generate_response services_generation_fails (ascii ''q'')) = [''response'', ''sources'', ''citations''] \<and>
   map fst (generate_response services_citation_fails (ascii ''q'')) =
     [''response'', ''sources'', ''citations'', ''num_sources'']"
proof -
  have e1: "\<not> (\<exists>t. chat_completion services_generation_fails
     (built_context services_generation_fails (ascii ''q'')) (ascii ''q'') = Inr t)"
    by (simp add: services_generation_fails_def)
  have e2: "\<exists>t. chat_completion services_citation_fails
     (built_context services_citation_fails (ascii ''q'')) (ascii ''q'') = Inr t"
    by (simp add: services_citation_fails_def)
  show ?thesis
    using generate_response_keys[of services_no_match "ascii ''q''"]
      generate_response_keys[of services_generation_fails "ascii ''q''"]
      generate_response_keys[of services_citation_fails "ascii ''q''"]
    by (simp add: sample_search e1 e2)
qed

end
